theory Spec2Isabelle
  imports Main "HOL-Library.AList" "HOL-Library.Word"
begin

section \<open>Data model of \<open>model_repository_manager.h\<close>\<close>

text \<open>
  The dependency graph of the model repository manager stores one \<open>DependencyNode\<close> per
  model identifier in an owning map (\<open>graph_ref_\<close>); all edges between nodes are raw
  pointers into that map. The embedding is an arena: the address of a node is the key it
  is stored under, a pointer is such a key, and following a pointer whose node is not in
  the map is the error \<open>DanglingNode\<close>. The trailing underscore of the C++ member names
  is dropped, since an Isabelle name cannot end in one.

  Every \<open>std::set\<close> and \<open>std::unordered_map\<close> is a list of its elements in iteration order
  (a map is an association list read with \<open>map_of\<close>); \<open>emplace\<close> is \<open>List.insert\<close> (no
  effect on a member), \<open>erase\<close> is \<open>removeAll\<close> or \<open>AList.delete\<close>. The order in which the
  C++ containers enumerate their elements (identifier order, pointer order, hash order)
  is not fixed by the source file: the model enumerates a container in the order of its
  list, a new element coming first. The theorems hold for every list passed to an
  operation or stored in the graph it starts from, and they speak of the elements of the
  containers only, never of their order.
\<close>

datatype ModelIdentifier = ModelIdentifier (namespace: string) (name: string)

text \<open>\<open>Status\<close>: \<open>Status::Success\<close> or a failure carrying its message.\<close>

datatype Status = Success | Failure string

text \<open>
  The undefined behaviours of the C++ code, as error values: following a node pointer
  whose node has been destroyed, using the result of \<open>missing_nodes_ref_.find\<close> when it is
  \<open>end()\<close>, and reading through the \<open>ModelInfo*\<close> that \<open>GetModelInfo\<close> left null.
\<close>

datatype error = DanglingNode | EndIteratorDeref | NullModelInfo

type_synonym node_ptr = ModelIdentifier

record 'cfg DependencyNode =
  model_id :: ModelIdentifier
  status :: Status
  checked :: bool
  explicitly_load :: bool
  model_config :: 'cfg
  loaded_versions :: "64 word list"
  missing_upstreams :: "string list"
  fuzzy_matched_upstreams :: "string list"
  upstreams :: "(node_ptr \<times> 64 word list) list"
  downstreams :: "node_ptr list"

text \<open>
  \<open>ModelInfo\<close> is only declared in the header; the two members the graph reads are kept.
  \<open>GetModelInfo\<close> is likewise only declared: the graph operations take the lookup as a
  parameter, \<open>None\<close> standing for the pointer left null when the model is unknown.
\<close>

record 'cfg ModelInfo =
  info_model_config :: 'cfg
  info_explicitly_load :: bool

type_synonym 'cfg node_store = "(ModelIdentifier \<times> 'cfg DependencyNode) list"

type_synonym name_map = "(string \<times> ModelIdentifier list) list"

text \<open>
  \<open>DependencyGraph\<close> holds references to the three maps of the manager:
  \<open>graph_ref_\<close> (\<open>dependency_graph_\<close>), \<open>global_map_ref_\<close> (\<open>global_map_\<close>, the name index) and
  \<open>missing_nodes_ref_\<close> (\<open>missing_nodes_\<close>, the waiters).
\<close>

record 'cfg DependencyGraph =
  graph_ref :: "'cfg node_store"
  global_map_ref :: name_map
  missing_nodes_ref :: name_map

text \<open>\<open>#define MODEL_READY_REASON_DUPLICATE\<close>\<close>

definition MODEL_READY_REASON_DUPLICATE :: string where
  "MODEL_READY_REASON_DUPLICATE = ''model appears in two or more repositories''"

subsection \<open>Node methods\<close>

text \<open>The constructor \<open>DependencyNode(model_id)\<close>, followed by the two assignments every
  caller makes before the node is stored (\<open>explicitly_load_\<close> has no initialiser).\<close>

definition new_DependencyNode ::
  "ModelIdentifier \<Rightarrow> 'cfg ModelInfo \<Rightarrow> 'cfg DependencyNode" where
  "new_DependencyNode mid info =
     \<lparr>model_id = mid, status = Success, checked = False,
      explicitly_load = info_explicitly_load info,
      model_config = info_model_config info,
      loaded_versions = [], missing_upstreams = [], fuzzy_matched_upstreams = [],
      upstreams = [], downstreams = []\<rparr>"

definition DisconnectUpstream ::
  "node_ptr \<Rightarrow> 'cfg DependencyNode \<Rightarrow> 'cfg DependencyNode" where
  "DisconnectUpstream upstream n = n\<lparr>upstreams := AList.delete upstream (upstreams n)\<rparr>"

definition DisconnectDownstream ::
  "node_ptr \<Rightarrow> 'cfg DependencyNode \<Rightarrow> 'cfg DependencyNode" where
  "DisconnectDownstream downstream n = n\<lparr>downstreams := removeAll downstream (downstreams n)\<rparr>"

text \<open>\<open>p->f(...)\<close>: a method call through a node pointer.\<close>

definition call_node ::
  "node_ptr \<Rightarrow> ('cfg DependencyNode \<Rightarrow> 'cfg DependencyNode) \<Rightarrow> 'cfg node_store
    \<Rightarrow> error + 'cfg node_store" where
  "call_node p f h =
     (case map_of h p of
        None \<Rightarrow> Inl DanglingNode
      | Some n \<Rightarrow> Inr (AList.update p (f n) h))"

subsection \<open>\<open>UncheckDownstream\<close>\<close>

text \<open>
  The recursion of the source, with the node store passed through: the call on the
  downstreams of a node runs before the loop moves to the next pointer. It ends because
  every recursive descent has just cleared one \<open>checked_\<close> flag.
\<close>

definition count_checked :: "'cfg node_store \<Rightarrow> nat" where
  "count_checked h = length (filter (\<lambda>kn. checked (snd kn)) h)"

function (sequential) UncheckDownstream ::
  "node_ptr list \<Rightarrow> 'cfg node_store \<Rightarrow> error + 'cfg node_store" where
  "UncheckDownstream [] h = Inr h"
| "UncheckDownstream (p # ps) h =
    (case map_of h p of
       None \<Rightarrow> Inl DanglingNode
     | Some node \<Rightarrow>
         if checked node then
           (case UncheckDownstream (downstreams node)
                   (AList.update p (node\<lparr>checked := False, status := Success\<rparr>) h) of
              Inl e \<Rightarrow> Inl e
            | Inr h' \<Rightarrow> UncheckDownstream ps h')
         else UncheckDownstream ps h)"
  by pat_completeness auto

lemma count_checked_update:
  "map_of h p = Some node \<Longrightarrow> checked node \<Longrightarrow> \<not> checked node' \<Longrightarrow>
   Suc (count_checked (AList.update p node' h)) = count_checked h"
  by (induction h) (auto simp: count_checked_def split: if_splits)

lemma UncheckDownstream_count:
  "UncheckDownstream_dom (ps, h) \<Longrightarrow> UncheckDownstream ps h = Inr h' \<Longrightarrow>
   count_checked h' \<le> count_checked h"
proof (induction ps h arbitrary: h' rule: UncheckDownstream.pinduct)
  case (1 h)
  then show ?case by (simp add: UncheckDownstream.psimps)
next
  case (2 p ps h)
  from "2.prems" "2.hyps" obtain node where n: "map_of h p = Some node"
    by (auto simp: UncheckDownstream.psimps split: option.splits)
  show ?case
  proof (cases "checked node")
    case True
    let ?h1 = "AList.update p (node\<lparr>checked := False, status := Success\<rparr>) h"
    from "2.prems" "2.hyps" n True obtain h1 where
      a: "UncheckDownstream (downstreams node) ?h1 = Inr h1" and
      b: "UncheckDownstream ps h1 = Inr h'"
      by (auto simp: UncheckDownstream.psimps split: sum.splits)
    have "count_checked h1 \<le> count_checked ?h1" using "2.IH"(1)[OF n True a] .
    moreover have "count_checked h' \<le> count_checked h1" using "2.IH"(2)[OF n True a b] .
    moreover have "Suc (count_checked ?h1) = count_checked h"
      using count_checked_update[OF n True] by simp
    ultimately show ?thesis by simp
  next
    case False
    with "2.prems" "2.hyps" n have "UncheckDownstream ps h = Inr h'"
      by (auto simp: UncheckDownstream.psimps)
    then show ?thesis using "2.IH"(3)[OF n False] by simp
  qed
qed

termination UncheckDownstream
proof (relation "measures [\<lambda>(ps, h). count_checked h, \<lambda>(ps, h). length ps]", goal_cases)
  case 1
  then show ?case by simp
next
  case (2 p ps h node)
  then show ?case
    using count_checked_update[of h p node "node\<lparr>checked := False, status := Success\<rparr>"]
    by auto
next
  case (3 p ps h node h')
  let ?h1 = "AList.update p (node\<lparr>checked := False, status := Success\<rparr>) h"
  have "Suc (count_checked ?h1) = count_checked h"
    using count_checked_update[of h p node] 3 by simp
  moreover have "count_checked h' \<le> count_checked ?h1"
    using UncheckDownstream_count 3 by blast
  ultimately show ?case by simp
next
  case (4 p ps h node)
  then show ?case by simp
qed

subsection \<open>\<open>FindNode\<close>\<close>

text \<open>
  The result is the pointer (\<open>None\<close> is \<open>nullptr\<close>) together with the node it points to
  when the call returns.
\<close>

definition FindNode ::
  "ModelIdentifier \<Rightarrow> bool \<Rightarrow> 'cfg DependencyGraph
    \<Rightarrow> (node_ptr \<times> 'cfg DependencyNode) option" where
  "FindNode mid allow_fuzzy_match G =
     (case map_of (graph_ref G) mid of
        Some n \<Rightarrow> Some (mid, n)
      | None \<Rightarrow>
          if allow_fuzzy_match then
            (case map_of (global_map_ref G) (name mid) of
               None \<Rightarrow> None
             | Some ids \<Rightarrow>
                 if length ids = 1 then
                   (case map_of (graph_ref G) (hd ids) of
                      Some n \<Rightarrow> Some (hd ids, n)
                    | None \<Rightarrow> None)
                 else None)
          else None)"

subsection \<open>\<open>RemoveNode\<close>\<close>

text \<open>The first loop: \<open>DisconnectDownstream\<close> on every upstream, whose identifier is
  collected.\<close>

fun RemoveNode_upstreams ::
  "node_ptr \<Rightarrow> (node_ptr \<times> 64 word list) list \<Rightarrow> ModelIdentifier list \<Rightarrow> 'cfg node_store
    \<Rightarrow> error + ('cfg node_store \<times> ModelIdentifier list)" where
  "RemoveNode_upstreams node [] ups h = Inr (h, ups)"
| "RemoveNode_upstreams node (upstream # rest) ups h =
    (case map_of h (fst upstream) of
       None \<Rightarrow> Inl DanglingNode
     | Some upstream_node \<Rightarrow>
         RemoveNode_upstreams node rest (List.insert (model_id upstream_node) ups)
           (AList.update (fst upstream) (DisconnectDownstream node upstream_node) h))"

text \<open>The second loop: \<open>DisconnectUpstream\<close> on every downstream. The source adds nothing
  to its \<open>downstreams\<close> result here.\<close>

fun RemoveNode_downstreams ::
  "node_ptr \<Rightarrow> node_ptr list \<Rightarrow> 'cfg node_store \<Rightarrow> error + 'cfg node_store" where
  "RemoveNode_downstreams node [] h = Inr h"
| "RemoveNode_downstreams node (downstream # rest) h =
    (case call_node downstream (DisconnectUpstream node) h of
       Inl e \<Rightarrow> Inl e
     | Inr h' \<Rightarrow> RemoveNode_downstreams node rest h')"

text \<open>
  The loop over \<open>missing_upstreams_\<close>, the same in \<open>UpdateNodes\<close> and \<open>RemoveNode\<close>:
  \<open>mit = missing_nodes_ref_.find(model_name); mit->second.erase(it->first)\<close>, with no test
  of \<open>mit\<close> against \<open>end()\<close>.
\<close>

fun erase_missing_refs ::
  "ModelIdentifier \<Rightarrow> string list \<Rightarrow> name_map \<Rightarrow> error + name_map" where
  "erase_missing_refs key [] m = Inr m"
| "erase_missing_refs key (model_name # rest) m =
    (case map_of m model_name of
       None \<Rightarrow> Inl EndIteratorDeref
     | Some ws \<Rightarrow> erase_missing_refs key rest (AList.update model_name (removeAll key ws) m))"

text \<open>
  \<open>RemoveNode\<close> returns the pair (upstreams, downstreams) with the new graph. The node is
  read again after the first loop, which can change the node's own \<open>downstreams_\<close> when
  the node is its own upstream; nothing before the third loop writes
  \<open>missing_upstreams_\<close>.
\<close>

definition RemoveNode ::
  "ModelIdentifier \<Rightarrow> 'cfg DependencyGraph
    \<Rightarrow> error + ('cfg DependencyGraph \<times> ModelIdentifier list \<times> ModelIdentifier list)" where
  "RemoveNode mid G =
     (case map_of (graph_ref G) mid of
        None \<Rightarrow> Inr (G, [], [])
      | Some node \<Rightarrow>
          (case RemoveNode_upstreams mid (upstreams node) [] (graph_ref G) of
             Inl e \<Rightarrow> Inl e
           | Inr (h1, ups) \<Rightarrow>
               (case map_of h1 mid of
                  None \<Rightarrow> Inl DanglingNode
                | Some node1 \<Rightarrow>
                    (case UncheckDownstream (downstreams node1) h1 of
                       Inl e \<Rightarrow> Inl e
                     | Inr h2 \<Rightarrow>
                         (case RemoveNode_downstreams mid (downstreams node1) h2 of
                            Inl e \<Rightarrow> Inl e
                          | Inr h3 \<Rightarrow>
                              (case erase_missing_refs mid (missing_upstreams node)
                                      (missing_nodes_ref G) of
                                 Inl e \<Rightarrow> Inl e
                               | Inr m \<Rightarrow>
                                   Inr (G\<lparr>graph_ref := AList.delete mid h3,
                                          missing_nodes_ref := m\<rparr>, ups, [])))))))"

subsection \<open>\<open>RemoveNodes\<close>\<close>

text \<open>The loop over the upstreams of the node just removed, run when
  \<open>cascading_removal\<close> is set.\<close>

fun RemoveNodes_cascade ::
  "ModelIdentifier list \<Rightarrow> 'cfg DependencyGraph \<Rightarrow> ModelIdentifier list
    \<Rightarrow> ModelIdentifier list" where
  "RemoveNodes_cascade [] G next_removal = next_removal"
| "RemoveNodes_cascade (upstream # rest) G next_removal =
    (case FindNode upstream False G of
       None \<Rightarrow> RemoveNodes_cascade rest G next_removal
     | Some (p, unode) \<Rightarrow>
         if downstreams unode = [] \<and> \<not> explicitly_load unode
         then RemoveNodes_cascade rest G (List.insert upstream next_removal)
         else RemoveNodes_cascade rest G next_removal)"

text \<open>The body of the \<open>for\<close> loop over \<open>curr_removal\<close>; the state is the graph with
  \<open>next_removal\<close>, \<open>all_affected_nodes\<close> and \<open>all_removed_nodes\<close>.\<close>

type_synonym 'cfg removal_state =
  "'cfg DependencyGraph \<times> ModelIdentifier list \<times> ModelIdentifier list \<times> ModelIdentifier list"

definition RemoveNodes_body ::
  "bool \<Rightarrow> ModelIdentifier \<Rightarrow> 'cfg removal_state \<Rightarrow> error + 'cfg removal_state" where
  "RemoveNodes_body cascading_removal mid st =
     (case st of (G, next_removal, all_affected_nodes, all_removed_nodes) \<Rightarrow>
        (case RemoveNode mid G of
           Inl e \<Rightarrow> Inl e
         | Inr (G', ups, downs) \<Rightarrow>
             Inr (G',
                  (if cascading_removal then RemoveNodes_cascade ups G' next_removal
                   else next_removal),
                  removeAll mid (fold List.insert downs all_affected_nodes),
                  List.insert mid all_removed_nodes)))"

fun RemoveNodes_wave ::
  "bool \<Rightarrow> ModelIdentifier list \<Rightarrow> 'cfg removal_state \<Rightarrow> error + 'cfg removal_state" where
  "RemoveNodes_wave cascading_removal [] st = Inr st"
| "RemoveNodes_wave cascading_removal (mid # rest) st =
    (case RemoveNodes_body cascading_removal mid st of
       Inl e \<Rightarrow> Inl e
     | Inr st' \<Rightarrow> RemoveNodes_wave cascading_removal rest st')"

subsection \<open>What the loops change\<close>

text \<open>
  Each loop rewrites nodes in place: the keys of the store stay as they are, and the node
  under a key changes in the fields the loop writes only.
\<close>

definition unchecked_from :: "'cfg DependencyNode \<Rightarrow> 'cfg DependencyNode \<Rightarrow> bool" where
  "unchecked_from n n' \<longleftrightarrow> n' = n \<or> n' = n\<lparr>checked := False, status := Success\<rparr>"

lemma unchecked_from_refl: "unchecked_from n n"
  by (simp add: unchecked_from_def)

lemma unchecked_from_trans:
  "unchecked_from a b \<Longrightarrow> unchecked_from b c \<Longrightarrow> unchecked_from a c"
  by (auto simp: unchecked_from_def)

lemma update_keys_present:
  "map_of h p = Some n \<Longrightarrow> map fst (AList.update p v h) = map fst h"
  by (induction h) (auto split: if_splits)

lemma UncheckDownstream_frame:
  "UncheckDownstream ps h = Inr h' \<Longrightarrow>
   map fst h' = map fst h \<and> (\<forall>k. rel_option unchecked_from (map_of h k) (map_of h' k))"
proof (induction ps h arbitrary: h' rule: UncheckDownstream.induct)
  case (1 h)
  then show ?case by (auto simp: option.rel_refl unchecked_from_refl)
next
  case (2 p ps h)
  from "2.prems" obtain node where n: "map_of h p = Some node"
    by (auto split: option.splits)
  show ?case
  proof (cases "checked node")
    case True
    let ?node' = "node\<lparr>checked := False, status := Success\<rparr>"
    let ?h1 = "AList.update p ?node' h"
    from "2.prems" n True obtain h1 where
      a: "UncheckDownstream (downstreams node) ?h1 = Inr h1" and
      b: "UncheckDownstream ps h1 = Inr h'"
      by (auto split: sum.splits)
    note A = "2.IH"(1)[OF n True a] and B = "2.IH"(2)[OF n True a b]
    have k0: "map fst ?h1 = map fst h" using update_keys_present[OF n] .
    have r0: "rel_option unchecked_from (map_of h k) (map_of ?h1 k)" for k
      using n by (cases "map_of h k") (auto simp: update_conv' unchecked_from_def)
    have "rel_option unchecked_from (map_of h k) (map_of h' k)" for k
    proof -
      have "rel_option (unchecked_from OO unchecked_from) (map_of ?h1 k) (map_of h' k)"
        using A B by (metis option.rel_compp relcompp.relcompI)
      then have "rel_option unchecked_from (map_of ?h1 k) (map_of h' k)"
        by (rule option.rel_mono_strong) (auto intro: unchecked_from_trans)
      with r0[of k] have "rel_option (unchecked_from OO unchecked_from) (map_of h k) (map_of h' k)"
        by (metis option.rel_compp relcompp.relcompI)
      then show ?thesis
        by (rule option.rel_mono_strong) (auto intro: unchecked_from_trans)
    qed
    then show ?thesis using A B k0 by simp
  next
    case False
    with "2.prems" n have "UncheckDownstream ps h = Inr h'" by auto
    then show ?thesis using "2.IH"(3)[OF n False] by simp
  qed
qed


lemma UncheckDownstream_keys:
  "UncheckDownstream ps h = Inr h' \<Longrightarrow> map fst h' = map fst h"
  using UncheckDownstream_frame by blast

lemma UncheckDownstream_Some:
  "UncheckDownstream ps h = Inr h' \<Longrightarrow> map_of h k = Some n \<Longrightarrow>
   \<exists>n'. map_of h' k = Some n' \<and> unchecked_from n n'"
  using UncheckDownstream_frame[of ps h h'] by (auto simp: option_rel_Some1 dest!: spec[of _ k])

lemma UncheckDownstream_Some_rev:
  "UncheckDownstream ps h = Inr h' \<Longrightarrow> map_of h' k = Some n' \<Longrightarrow>
   \<exists>n. map_of h k = Some n \<and> unchecked_from n n'"
  using UncheckDownstream_frame[of ps h h'] by (auto simp: option_rel_Some2 dest!: spec[of _ k])

lemma UncheckDownstream_None:
  "UncheckDownstream ps h = Inr h' \<Longrightarrow> map_of h' k = None \<longleftrightarrow> map_of h k = None"
  using UncheckDownstream_frame[of ps h h'] by (metis option.rel_distinct(1,2) not_None_eq)

lemma call_node_frame:
  "call_node p f h = Inr h' \<Longrightarrow>
   map fst h' = map fst h \<and> (\<exists>n. map_of h p = Some n \<and> map_of h' = (map_of h)(p \<mapsto> f n))"
  by (auto simp: call_node_def update_keys_present update_conv' split: option.splits)

lemma DisconnectDownstream_idem [simp]:
  "DisconnectDownstream m (DisconnectDownstream m n) = DisconnectDownstream m n"
  by (simp add: DisconnectDownstream_def)

lemma DisconnectUpstream_idem [simp]:
  "DisconnectUpstream m (DisconnectUpstream m n) = DisconnectUpstream m n"
  by (simp add: DisconnectUpstream_def delete_idem)

lemma DisconnectDownstream_fields [simp]:
  "model_id (DisconnectDownstream m n) = model_id n"
  "upstreams (DisconnectDownstream m n) = upstreams n"
  "downstreams (DisconnectDownstream m n) = removeAll m (downstreams n)"
  "missing_upstreams (DisconnectDownstream m n) = missing_upstreams n"
  "fuzzy_matched_upstreams (DisconnectDownstream m n) = fuzzy_matched_upstreams n"
  "explicitly_load (DisconnectDownstream m n) = explicitly_load n"
  "checked (DisconnectDownstream m n) = checked n"
  "status (DisconnectDownstream m n) = status n"
  "model_config (DisconnectDownstream m n) = model_config n"
  "loaded_versions (DisconnectDownstream m n) = loaded_versions n"
  by (simp_all add: DisconnectDownstream_def)

lemma DisconnectUpstream_fields [simp]:
  "model_id (DisconnectUpstream m n) = model_id n"
  "upstreams (DisconnectUpstream m n) = AList.delete m (upstreams n)"
  "downstreams (DisconnectUpstream m n) = downstreams n"
  "missing_upstreams (DisconnectUpstream m n) = missing_upstreams n"
  "fuzzy_matched_upstreams (DisconnectUpstream m n) = fuzzy_matched_upstreams n"
  "explicitly_load (DisconnectUpstream m n) = explicitly_load n"
  "checked (DisconnectUpstream m n) = checked n"
  "status (DisconnectUpstream m n) = status n"
  "model_config (DisconnectUpstream m n) = model_config n"
  "loaded_versions (DisconnectUpstream m n) = loaded_versions n"
  by (simp_all add: DisconnectUpstream_def)

lemma RemoveNode_upstreams_frame:
  "RemoveNode_upstreams mid ups acc h = Inr (h', acc') \<Longrightarrow>
   map fst h' = map fst h \<and>
   (\<forall>k. map_of h' k =
      map_option (\<lambda>n. if k \<in> fst ` set ups then DisconnectDownstream mid n else n) (map_of h k)) \<and>
   fst ` set ups \<subseteq> dom (map_of h) \<and>
   (\<forall>x. x \<in> set acc' \<longleftrightarrow>
      x \<in> set acc \<or> (\<exists>v n. v \<in> fst ` set ups \<and> map_of h v = Some n \<and> model_id n = x))"
proof (induction ups arbitrary: acc h)
  case Nil
  then show ?case by (auto simp: option.map_ident)
next
  case (Cons u rest)
  from Cons.prems obtain un where un: "map_of h (fst u) = Some un"
    by (auto split: option.splits)
  let ?h1 = "AList.update (fst u) (DisconnectDownstream mid un) h"
  from Cons.prems un have r: "RemoveNode_upstreams mid rest (List.insert (model_id un) acc) ?h1 = Inr (h', acc')"
    by simp
  note IH = Cons.IH[OF r]
  have k1: "map fst ?h1 = map fst h" using update_keys_present[OF un] .
  have m1: "map_of ?h1 = (map_of h)(fst u \<mapsto> DisconnectDownstream mid un)"
    by (simp add: update_conv')
  have c1: "map fst h' = map fst h" using IH k1 by simp
  have c2: "map_of h' k =
      map_option (\<lambda>n. if k \<in> fst ` set (u # rest) then DisconnectDownstream mid n else n) (map_of h k)" for k
    using IH m1 un by (cases "map_of h k") auto
  have c3: "fst ` set (u # rest) \<subseteq> dom (map_of h)"
    using IH m1 un by (auto split: if_splits)
  have a: "\<exists>n0. map_of h v = Some n0 \<and> model_id n0 = model_id n" if "map_of ?h1 v = Some n" for v n
    using that un by (cases "v = fst u") (auto simp: update_conv')
  have b: "\<exists>n1. map_of ?h1 v = Some n1 \<and> model_id n1 = model_id n" if "map_of h v = Some n" for v n
    using that un by (cases "v = fst u") (auto simp: update_conv')
  have c4: "x \<in> set acc' \<longleftrightarrow>
      x \<in> set acc \<or> (\<exists>v n. v \<in> fst ` set (u # rest) \<and> map_of h v = Some n \<and> model_id n = x)" for x
  proof
    assume "x \<in> set acc'"
    with IH have "x \<in> set (List.insert (model_id un) acc) \<or>
        (\<exists>v n. v \<in> fst ` set rest \<and> map_of ?h1 v = Some n \<and> model_id n = x)" by blast
    then consider "x = model_id un" | "x \<in> set acc"
      | v n where "v \<in> fst ` set rest" "map_of ?h1 v = Some n" "model_id n = x" by auto
    then show "x \<in> set acc \<or> (\<exists>v n. v \<in> fst ` set (u # rest) \<and> map_of h v = Some n \<and> model_id n = x)"
    proof cases
      case 1
      then show ?thesis using un by auto
    next
      case 2
      then show ?thesis by simp
    next
      case 3
      from a[OF 3(2)] obtain n0 where "map_of h v = Some n0" "model_id n0 = model_id n" by blast
      with 3 show ?thesis by auto
    qed
  next
    assume "x \<in> set acc \<or> (\<exists>v n. v \<in> fst ` set (u # rest) \<and> map_of h v = Some n \<and> model_id n = x)"
    then consider "x \<in> set acc" | n where "map_of h (fst u) = Some n" "model_id n = x"
      | v n where "v \<in> fst ` set rest" "map_of h v = Some n" "model_id n = x" by auto
    then have "x \<in> set (List.insert (model_id un) acc) \<or>
        (\<exists>v n. v \<in> fst ` set rest \<and> map_of ?h1 v = Some n \<and> model_id n = x)"
    proof cases
      case 1
      then show ?thesis by simp
    next
      case 2
      then show ?thesis using un by simp
    next
      case 3
      from b[OF 3(2)] obtain n1 where "map_of ?h1 v = Some n1" "model_id n1 = model_id n" by blast
      with 3 show ?thesis by blast
    qed
    with IH show "x \<in> set acc'" by blast
  qed
  show ?case using c1 c2 c3 c4 by blast
qed

lemma RemoveNode_downstreams_frame:
  "RemoveNode_downstreams mid downs h = Inr h' \<Longrightarrow>
   map fst h' = map fst h \<and>
   (\<forall>k. map_of h' k =
      map_option (\<lambda>n. if k \<in> set downs then DisconnectUpstream mid n else n) (map_of h k)) \<and>
   set downs \<subseteq> dom (map_of h)"
proof (induction downs arbitrary: h)
  case Nil
  then show ?case by (auto simp: option.map_ident)
next
  case (Cons d rest)
  from Cons.prems obtain h1 where h1: "call_node d (DisconnectUpstream mid) h = Inr h1"
    and r: "RemoveNode_downstreams mid rest h1 = Inr h'"
    by (auto split: sum.splits)
  from call_node_frame[OF h1] obtain dn where k1: "map fst h1 = map fst h"
    and dn: "map_of h d = Some dn" and m1: "map_of h1 = (map_of h)(d \<mapsto> DisconnectUpstream mid dn)"
    by auto
  note IH = Cons.IH[OF r]
  have c2: "map_of h' k =
      map_option (\<lambda>n. if k \<in> set (d # rest) then DisconnectUpstream mid n else n) (map_of h k)" for k
    using IH m1 dn by (cases "map_of h k") auto
  have c3: "set (d # rest) \<subseteq> dom (map_of h)"
    using IH m1 dn by (auto split: if_splits)
  show ?case using IH k1 c2 c3 by simp
qed

lemma erase_missing_refs_frame:
  "erase_missing_refs key names m = Inr m' \<Longrightarrow>
   map fst m' = map fst m \<and>
   (\<forall>nm. map_of m' nm =
      map_option (\<lambda>ws. if nm \<in> set names then removeAll key ws else ws) (map_of m nm)) \<and>
   set names \<subseteq> dom (map_of m)"
proof (induction names arbitrary: m)
  case Nil
  then show ?case by (auto simp: option.map_ident)
next
  case (Cons x rest)
  from Cons.prems obtain ws where ws: "map_of m x = Some ws"
    by (auto split: option.splits)
  let ?m1 = "AList.update x (removeAll key ws) m"
  from Cons.prems ws have r: "erase_missing_refs key rest ?m1 = Inr m'" by simp
  note IH = Cons.IH[OF r]
  have k1: "map fst ?m1 = map fst m" using update_keys_present[OF ws] .
  have m1: "map_of ?m1 = (map_of m)(x \<mapsto> removeAll key ws)" by (simp add: update_conv')
  have c2: "map_of m' nm =
      map_option (\<lambda>ws. if nm \<in> set (x # rest) then removeAll key ws else ws) (map_of m nm)" for nm
    using IH m1 ws by (cases "map_of m nm") auto
  have c3: "set (x # rest) \<subseteq> dom (map_of m)"
    using IH m1 ws by (auto split: if_splits)
  show ?case using IH k1 c2 c3 by simp
qed

definition same_static :: "'cfg DependencyNode \<Rightarrow> 'cfg DependencyNode \<Rightarrow> bool" where
  "same_static n n' \<longleftrightarrow>
     model_id n' = model_id n \<and> explicitly_load n' = explicitly_load n \<and>
     model_config n' = model_config n \<and> loaded_versions n' = loaded_versions n \<and>
     missing_upstreams n' = missing_upstreams n \<and>
     fuzzy_matched_upstreams n' = fuzzy_matched_upstreams n"

lemma unchecked_from_fields:
  "unchecked_from n n' \<Longrightarrow>
     same_static n n' \<and> upstreams n' = upstreams n \<and> downstreams n' = downstreams n \<and>
     (checked n' \<longrightarrow> checked n \<and> status n' = status n) \<and>
     (\<not> checked n' \<longrightarrow> \<not> checked n \<and> status n' = status n \<or> status n' = Success)"
  by (auto simp: unchecked_from_def same_static_def)

lemma RemoveNode_absent:
  "map_of (graph_ref G) mid = None \<Longrightarrow> RemoveNode mid G = Inr (G, [], [])"
  by (simp add: RemoveNode_def)

lemma RemoveNode_present:
  assumes r: "RemoveNode mid G = Inr (G', ups, downs)"
    and n: "map_of (graph_ref G) mid = Some node"
  shows "downs = []"
    and "global_map_ref G' = global_map_ref G"
    and "map fst (graph_ref G') = removeAll mid (map fst (graph_ref G))"
    and "map_of (graph_ref G') mid = None"
    and "fst ` set (upstreams node) \<subseteq> dom (map_of (graph_ref G))"
    and "\<And>x. x \<in> set ups \<longleftrightarrow>
        (\<exists>v un. v \<in> fst ` set (upstreams node) \<and> map_of (graph_ref G) v = Some un \<and>
           model_id un = x)"
    and "\<And>k. map_of (graph_ref G) k = None \<Longrightarrow> map_of (graph_ref G') k = None"
    and "\<And>k n. k \<noteq> mid \<Longrightarrow> map_of (graph_ref G) k = Some n \<Longrightarrow>
        (\<exists>n'. map_of (graph_ref G') k = Some n' \<and> same_static n n' \<and>
           downstreams n' = (if k \<in> fst ` set (upstreams node)
                             then removeAll mid (downstreams n) else downstreams n) \<and>
           upstreams n' = (if k \<in> set (downstreams node)
                           then AList.delete mid (upstreams n) else upstreams n) \<and>
           (checked n' \<longrightarrow> checked n))"
    and "map fst (missing_nodes_ref G') = map fst (missing_nodes_ref G)"
    and "set (missing_upstreams node) \<subseteq> dom (map_of (missing_nodes_ref G))"
    and "\<And>nm. map_of (missing_nodes_ref G') nm =
        map_option (\<lambda>ws. if nm \<in> set (missing_upstreams node) then removeAll mid ws else ws)
          (map_of (missing_nodes_ref G) nm)"
proof -
  from r n obtain h1 node1 h2 h3 m where
    s1: "RemoveNode_upstreams mid (upstreams node) [] (graph_ref G) = Inr (h1, ups)" and
    n1: "map_of h1 mid = Some node1" and
    s2: "UncheckDownstream (downstreams node1) h1 = Inr h2" and
    s3: "RemoveNode_downstreams mid (downstreams node1) h2 = Inr h3" and
    s4: "erase_missing_refs mid (missing_upstreams node) (missing_nodes_ref G) = Inr m" and
    g': "G' = G\<lparr>graph_ref := AList.delete mid h3, missing_nodes_ref := m\<rparr>" and
    d: "downs = []"
    unfolding RemoveNode_def by (auto split: sum.splits option.splits prod.splits)
  note F1 = RemoveNode_upstreams_frame[OF s1]
  note F3 = RemoveNode_downstreams_frame[OF s3]
  note F4 = erase_missing_refs_frame[OF s4]
  let ?U = "fst ` set (upstreams node)"
  have keys: "map fst (graph_ref G') = removeAll mid (map fst (graph_ref G))"
    using F1 F3 UncheckDownstream_keys[OF s2] by (simp add: g' delete_keys)
  have gone: "map_of (graph_ref G') mid = None" by (simp add: g' delete_conv')
  have ups: "x \<in> set ups \<longleftrightarrow>
        (\<exists>v un. v \<in> ?U \<and> map_of (graph_ref G) v = Some un \<and> model_id un = x)" for x
    using F1 by simp
  have none: "map_of (graph_ref G') k = None" if "map_of (graph_ref G) k = None" for k
  proof -
    have "map_of h1 k = None" using F1 that by simp
    then have "map_of h2 k = None" using UncheckDownstream_None[OF s2] by simp
    then have "map_of h3 k = None" using F3 by simp
    then show ?thesis by (simp add: g' delete_conv')
  qed
  have some: "\<exists>n'. map_of (graph_ref G') k = Some n' \<and> same_static n0 n' \<and>
           downstreams n' = (if k \<in> ?U then removeAll mid (downstreams n0) else downstreams n0) \<and>
           upstreams n' = (if k \<in> set (downstreams node)
                           then AList.delete mid (upstreams n0) else upstreams n0) \<and>
           (checked n' \<longrightarrow> checked n0)"
    if k: "k \<noteq> mid" and n0: "map_of (graph_ref G) k = Some n0" for k n0
  proof -
    let ?n1 = "if k \<in> ?U then DisconnectDownstream mid n0 else n0"
    have a1: "map_of h1 k = Some ?n1" using F1 n0 by simp
    from UncheckDownstream_Some[OF s2 a1] obtain n2 where
      a2: "map_of h2 k = Some n2" and u2: "unchecked_from ?n1 n2" by blast
    let ?n3 = "if k \<in> set (downstreams node1) then DisconnectUpstream mid n2 else n2"
    have a3: "map_of h3 k = Some ?n3" using F3 a2 by simp
    have a4: "map_of (graph_ref G') k = Some ?n3" using a3 k by (simp add: g' delete_conv')
    have dn1: "node1 = (if mid \<in> ?U then DisconnectDownstream mid node else node)"
      using F1 n n1 by simp
    have din: "k \<in> set (downstreams node1) \<longleftrightarrow> k \<in> set (downstreams node)"
      using k by (simp add: dn1)
    note uf = unchecked_from_fields[OF u2]
    show ?thesis
      using a4 uf din by (cases "k \<in> ?U"; cases "k \<in> set (downstreams node)")
        (simp_all add: same_static_def)
  qed
  have w: "missing_nodes_ref G' = m" and gm: "global_map_ref G' = global_map_ref G"
    by (simp_all add: g')
  have sub: "?U \<subseteq> dom (map_of (graph_ref G))" using F1 by blast
  have c1: "map fst (missing_nodes_ref G') = map fst (missing_nodes_ref G)"
    and c2: "set (missing_upstreams node) \<subseteq> dom (map_of (missing_nodes_ref G))"
    and c3: "\<forall>nm. map_of (missing_nodes_ref G') nm =
        map_option (\<lambda>ws. if nm \<in> set (missing_upstreams node) then removeAll mid ws else ws)
          (map_of (missing_nodes_ref G) nm)"
    using F4 unfolding w by blast+
  show "downs = []" by (fact d)
  show "global_map_ref G' = global_map_ref G" by (fact gm)
  show "map fst (graph_ref G') = removeAll mid (map fst (graph_ref G))" by (fact keys)
  show "map_of (graph_ref G') mid = None" by (fact gone)
  show "?U \<subseteq> dom (map_of (graph_ref G))" by (fact sub)
  show "x \<in> set ups \<longleftrightarrow>
        (\<exists>v un. v \<in> ?U \<and> map_of (graph_ref G) v = Some un \<and> model_id un = x)" for x
    by (fact ups)
  show "map_of (graph_ref G) k = None \<Longrightarrow> map_of (graph_ref G') k = None" for k
    by (fact none)
  show "k \<noteq> mid \<Longrightarrow> map_of (graph_ref G) k = Some n \<Longrightarrow>
        (\<exists>n'. map_of (graph_ref G') k = Some n' \<and> same_static n n' \<and>
           downstreams n' = (if k \<in> ?U then removeAll mid (downstreams n) else downstreams n) \<and>
           upstreams n' = (if k \<in> set (downstreams node)
                           then AList.delete mid (upstreams n) else upstreams n) \<and>
           (checked n' \<longrightarrow> checked n))" for k n
    by (fact some)
  show "map fst (missing_nodes_ref G') = map fst (missing_nodes_ref G)" by (fact c1)
  show "set (missing_upstreams node) \<subseteq> dom (map_of (missing_nodes_ref G))" by (fact c2)
  show "map_of (missing_nodes_ref G') nm =
        map_option (\<lambda>ws. if nm \<in> set (missing_upstreams node) then removeAll mid ws else ws)
          (map_of (missing_nodes_ref G) nm)" for nm
    using c3 by simp
qed

subsection \<open>The waves of \<open>RemoveNodes\<close>\<close>

text \<open>
  \<open>next_removal\<close> is only extended after a node has been erased from the store, so a
  wave that queues anything leaves a smaller store: the \<open>while\<close> loop ends.
\<close>

lemma RemoveNode_length:
  assumes "RemoveNode mid G = Inr (G', ups, downs)"
  shows "length (graph_ref G') \<le> length (graph_ref G) \<and>
         (ups \<noteq> [] \<longrightarrow> length (graph_ref G') < length (graph_ref G))"
proof (cases "map_of (graph_ref G) mid")
  case None
  with assms show ?thesis by (simp add: RemoveNode_absent)
next
  case (Some node)
  have k: "map fst (graph_ref G') = removeAll mid (map fst (graph_ref G))"
    by (rule RemoveNode_present(3)[OF assms Some])
  have "mid \<in> set (map fst (graph_ref G))"
    using Some by (metis map_of_eq_None_iff option.distinct(1) set_map)
  then have "length (removeAll mid (map fst (graph_ref G))) < length (map fst (graph_ref G))"
    by (rule length_removeAll_less)
  with k have "length (map fst (graph_ref G')) < length (map fst (graph_ref G))" by simp
  then show ?thesis by simp
qed

lemma RemoveNodes_body_length:
  assumes "RemoveNodes_body c mid (G, nx, a, r) = Inr (G', nx', a', r')"
  shows "length (graph_ref G') \<le> length (graph_ref G) \<and>
         (nx' \<noteq> nx \<longrightarrow> length (graph_ref G') < length (graph_ref G))"
proof -
  from assms obtain ups downs where rn: "RemoveNode mid G = Inr (G', ups, downs)"
    and nx': "nx' = (if c then RemoveNodes_cascade ups G' nx else nx)"
    by (auto simp: RemoveNodes_body_def split: sum.splits)
  have "ups = [] \<Longrightarrow> nx' = nx" using nx' by simp
  with RemoveNode_length[OF rn] show ?thesis by blast
qed

lemma RemoveNodes_wave_length:
  "RemoveNodes_wave c cur (G, nx, a, r) = Inr (G', nx', a', r') \<Longrightarrow>
   length (graph_ref G') \<le> length (graph_ref G) \<and>
   (nx' \<noteq> nx \<longrightarrow> length (graph_ref G') < length (graph_ref G))"
proof (induction cur arbitrary: G nx a r)
  case Nil
  then show ?case by simp
next
  case (Cons mid rest)
  from Cons.prems obtain G1 nx1 a1 r1 where
    b: "RemoveNodes_body c mid (G, nx, a, r) = Inr (G1, nx1, a1, r1)" and
    w: "RemoveNodes_wave c rest (G1, nx1, a1, r1) = Inr (G', nx', a', r')"
    by (auto split: sum.splits)
  from RemoveNodes_body_length[OF b] Cons.IH[OF w] show ?case by auto
qed

function RemoveNodes_loop ::
  "bool \<Rightarrow> ModelIdentifier list \<Rightarrow> 'cfg DependencyGraph \<Rightarrow> ModelIdentifier list
    \<Rightarrow> ModelIdentifier list
    \<Rightarrow> error + ('cfg DependencyGraph \<times> ModelIdentifier list \<times> ModelIdentifier list)" where
  "RemoveNodes_loop cascading_removal curr_removal G all_affected_nodes all_removed_nodes =
     (if curr_removal = [] then Inr (G, all_affected_nodes, all_removed_nodes)
      else
        (case RemoveNodes_wave cascading_removal curr_removal
                (G, [], all_affected_nodes, all_removed_nodes) of
           Inl e \<Rightarrow> Inl e
         | Inr (G', next_removal, affected', removed') \<Rightarrow>
             RemoveNodes_loop cascading_removal next_removal G' affected' removed'))"
  by pat_completeness auto
termination
proof (relation "measure (\<lambda>(c, cur, G, a, r).
         length (graph_ref G) + (if cur = [] then 0 else 1))", goal_cases)
  case 1
  then show ?case by simp
next
  case (2 c cur G a r x2 G' y nx z a' r')
  then have "RemoveNodes_wave c cur (G, [], a, r) = Inr (G', nx, a', r')" by simp
  from RemoveNodes_wave_length[OF this] 2(1) show ?case by auto
qed

definition RemoveNodes ::
  "ModelIdentifier list \<Rightarrow> bool \<Rightarrow> 'cfg DependencyGraph
    \<Rightarrow> error + ('cfg DependencyGraph \<times> ModelIdentifier list \<times> ModelIdentifier list)" where
  "RemoveNodes nodes cascading_removal G = RemoveNodes_loop cascading_removal nodes G [] []"

subsection \<open>\<open>UpdateNodes\<close>\<close>

text \<open>The loop over \<open>node->upstreams_\<close>: \<open>upstream.first->DisconnectDownstream(node.get())\<close>.\<close>

fun UpdateNodes_disconnect ::
  "node_ptr \<Rightarrow> (node_ptr \<times> 64 word list) list \<Rightarrow> 'cfg node_store
    \<Rightarrow> error + 'cfg node_store" where
  "UpdateNodes_disconnect node [] h = Inr h"
| "UpdateNodes_disconnect node (upstream # rest) h =
    (case call_node (fst upstream) (DisconnectDownstream node) h of
       Inl e \<Rightarrow> Inl e
     | Inr h' \<Rightarrow> UpdateNodes_disconnect node rest h')"

text \<open>
  The body of the loop over the given identifiers. \<open>UncheckDownstream\<close> writes no
  \<open>upstreams_\<close> or \<open>missing_upstreams_\<close>, so the two loops after it run over the sets of the
  node as found. The assignments at the end are made to the node as it then is. Neither
  \<open>missing_upstreams_\<close> nor \<open>fuzzy_matched_upstreams_\<close> is assigned.
\<close>

definition UpdateNodes_body ::
  "(ModelIdentifier \<Rightarrow> 'cfg ModelInfo option) \<Rightarrow> ModelIdentifier
    \<Rightarrow> 'cfg DependencyGraph \<times> ModelIdentifier list
    \<Rightarrow> error + ('cfg DependencyGraph \<times> ModelIdentifier list)" where
  "UpdateNodes_body model_manager mid st =
     (case st of (G, updated_nodes) \<Rightarrow>
        (case map_of (graph_ref G) mid of
           None \<Rightarrow> Inr (G, updated_nodes)
         | Some node \<Rightarrow>
             (case UncheckDownstream (downstreams node) (graph_ref G) of
                Inl e \<Rightarrow> Inl e
              | Inr h1 \<Rightarrow>
                  (case UpdateNodes_disconnect mid (upstreams node) h1 of
                     Inl e \<Rightarrow> Inl e
                   | Inr h2 \<Rightarrow>
                       (case erase_missing_refs mid (missing_upstreams node)
                               (missing_nodes_ref G) of
                          Inl e \<Rightarrow> Inl e
                        | Inr m \<Rightarrow>
                            (case model_manager mid of
                               None \<Rightarrow> Inl NullModelInfo
                             | Some info \<Rightarrow>
                                 (case call_node mid
                                         (\<lambda>n. n\<lparr>model_config := info_model_config info,
                                                explicitly_load := info_explicitly_load info,
                                                upstreams := [],
                                                checked := False,
                                                status := Success\<rparr>) h2 of
                                    Inl e \<Rightarrow> Inl e
                                  | Inr h3 \<Rightarrow>
                                      Inr (G\<lparr>graph_ref := h3, missing_nodes_ref := m\<rparr>,
                                           List.insert mid updated_nodes))))))))"

fun UpdateNodes_loop ::
  "(ModelIdentifier \<Rightarrow> 'cfg ModelInfo option) \<Rightarrow> ModelIdentifier list
    \<Rightarrow> 'cfg DependencyGraph \<times> ModelIdentifier list
    \<Rightarrow> error + ('cfg DependencyGraph \<times> ModelIdentifier list)" where
  "UpdateNodes_loop model_manager [] st = Inr st"
| "UpdateNodes_loop model_manager (mid # rest) st =
    (case UpdateNodes_body model_manager mid st of
       Inl e \<Rightarrow> Inl e
     | Inr st' \<Rightarrow> UpdateNodes_loop model_manager rest st')"

definition UpdateNodes ::
  "ModelIdentifier list \<Rightarrow> (ModelIdentifier \<Rightarrow> 'cfg ModelInfo option)
    \<Rightarrow> 'cfg DependencyGraph \<Rightarrow> error + ('cfg DependencyGraph \<times> ModelIdentifier list)" where
  "UpdateNodes nodes model_manager G = UpdateNodes_loop model_manager nodes (G, [])"

subsection \<open>\<open>AddNodes\<close>\<close>

text \<open>\<open>graph_ref_.emplace\<close>: an identifier already in the map keeps its node.\<close>

definition emplace_node ::
  "ModelIdentifier \<Rightarrow> 'cfg DependencyNode \<Rightarrow> 'cfg node_store \<Rightarrow> 'cfg node_store" where
  "emplace_node k n h = (case map_of h k of None \<Rightarrow> h @ [(k, n)] | Some old \<Rightarrow> h)"

text \<open>The loop over the identifiers waiting for the name of the added model.\<close>

fun AddNodes_dependents ::
  "ModelIdentifier list \<Rightarrow> 'cfg DependencyGraph \<times> ModelIdentifier list
    \<Rightarrow> error + ('cfg DependencyGraph \<times> ModelIdentifier list)" where
  "AddNodes_dependents [] st = Inr st"
| "AddNodes_dependents (dependent_node_id # rest) st =
    (case st of (G, affected_nodes) \<Rightarrow>
       (case FindNode dependent_node_id False G of
          None \<Rightarrow> AddNodes_dependents rest (G, affected_nodes)
        | Some (dependent_node, n) \<Rightarrow>
            (case UncheckDownstream [dependent_node] (graph_ref G) of
               Inl e \<Rightarrow> Inl e
             | Inr h \<Rightarrow>
                 AddNodes_dependents rest
                   (G\<lparr>graph_ref := h\<rparr>, List.insert dependent_node_id affected_nodes))))"

definition AddNodes_body ::
  "(ModelIdentifier \<Rightarrow> 'cfg ModelInfo option) \<Rightarrow> ModelIdentifier
    \<Rightarrow> 'cfg DependencyGraph \<times> ModelIdentifier list
    \<Rightarrow> error + ('cfg DependencyGraph \<times> ModelIdentifier list)" where
  "AddNodes_body model_manager mid st =
     (case st of (G, affected_nodes) \<Rightarrow>
        (case model_manager mid of
           None \<Rightarrow> Inl NullModelInfo
         | Some info \<Rightarrow>
             (case map_of (missing_nodes_ref G) (name mid) of
                None \<Rightarrow>
                  Inr (G\<lparr>graph_ref := emplace_node mid (new_DependencyNode mid info) (graph_ref G)\<rparr>,
                       List.insert mid affected_nodes)
              | Some waiting \<Rightarrow>
                  AddNodes_dependents waiting
                    (G\<lparr>graph_ref := emplace_node mid (new_DependencyNode mid info) (graph_ref G)\<rparr>,
                     List.insert mid affected_nodes))))"

fun AddNodes_loop ::
  "(ModelIdentifier \<Rightarrow> 'cfg ModelInfo option) \<Rightarrow> ModelIdentifier list
    \<Rightarrow> 'cfg DependencyGraph \<times> ModelIdentifier list
    \<Rightarrow> error + ('cfg DependencyGraph \<times> ModelIdentifier list)" where
  "AddNodes_loop model_manager [] st = Inr st"
| "AddNodes_loop model_manager (mid # rest) st =
    (case AddNodes_body model_manager mid st of
       Inl e \<Rightarrow> Inl e
     | Inr st' \<Rightarrow> AddNodes_loop model_manager rest st')"

definition AddNodes ::
  "ModelIdentifier list \<Rightarrow> (ModelIdentifier \<Rightarrow> 'cfg ModelInfo option)
    \<Rightarrow> 'cfg DependencyGraph \<Rightarrow> error + ('cfg DependencyGraph \<times> ModelIdentifier list)" where
  "AddNodes nodes model_manager G = AddNodes_loop model_manager nodes (G, [])"

subsection \<open>What \<open>UpdateNodes\<close> and \<open>AddNodes\<close> change\<close>

lemma UpdateNodes_disconnect_frame:
  "UpdateNodes_disconnect mid ups h = Inr h' \<Longrightarrow>
   map fst h' = map fst h \<and>
   (\<forall>k. map_of h' k =
      map_option (\<lambda>n. if k \<in> fst ` set ups then DisconnectDownstream mid n else n) (map_of h k)) \<and>
   fst ` set ups \<subseteq> dom (map_of h)"
proof (induction ups arbitrary: h)
  case Nil
  then show ?case by (auto simp: option.map_ident)
next
  case (Cons u rest)
  from Cons.prems obtain h1 where h1: "call_node (fst u) (DisconnectDownstream mid) h = Inr h1"
    and r: "UpdateNodes_disconnect mid rest h1 = Inr h'"
    by (auto split: sum.splits)
  from call_node_frame[OF h1] obtain un where k1: "map fst h1 = map fst h"
    and un: "map_of h (fst u) = Some un"
    and m1: "map_of h1 = (map_of h)(fst u \<mapsto> DisconnectDownstream mid un)"
    by auto
  note IH = Cons.IH[OF r]
  have c2: "map_of h' k =
      map_option (\<lambda>n. if k \<in> fst ` set (u # rest) then DisconnectDownstream mid n else n) (map_of h k)" for k
    using IH m1 un by (cases "map_of h k") auto
  have c3: "fst ` set (u # rest) \<subseteq> dom (map_of h)"
    using IH m1 un by (auto split: if_splits)
  show ?case using IH k1 c2 c3 by simp
qed

definition check_rel :: "'cfg DependencyNode \<Rightarrow> 'cfg DependencyNode \<Rightarrow> bool" where
  "check_rel n n' \<longleftrightarrow>
     (checked n' = checked n \<and> status n' = status n) \<or> (\<not> checked n' \<and> status n' = Success)"

lemma unchecked_from_check_rel: "unchecked_from n n' \<Longrightarrow> check_rel n n'"
  by (auto simp: unchecked_from_def check_rel_def)

lemma UpdateNodes_body_absent:
  "map_of (graph_ref G) mid = None \<Longrightarrow> UpdateNodes_body mm mid (G, upd) = Inr (G, upd)"
  by (simp add: UpdateNodes_body_def)

lemma UpdateNodes_body_present:
  assumes r: "UpdateNodes_body mm mid (G, upd) = Inr (G', upd')"
    and n: "map_of (graph_ref G) mid = Some node"
  shows "upd' = List.insert mid upd"
    and "global_map_ref G' = global_map_ref G"
    and "map fst (graph_ref G') = map fst (graph_ref G)"
    and "fst ` set (upstreams node) \<subseteq> dom (map_of (graph_ref G))"
    and "\<exists>info n'. mm mid = Some info \<and> map_of (graph_ref G') mid = Some n' \<and>
        model_config n' = info_model_config info \<and>
        explicitly_load n' = info_explicitly_load info \<and>
        upstreams n' = [] \<and> \<not> checked n' \<and> status n' = Success \<and>
        model_id n' = model_id node \<and> loaded_versions n' = loaded_versions node \<and>
        missing_upstreams n' = missing_upstreams node \<and>
        fuzzy_matched_upstreams n' = fuzzy_matched_upstreams node \<and>
        downstreams n' = (if mid \<in> fst ` set (upstreams node)
                          then removeAll mid (downstreams node) else downstreams node)"
    and "\<And>k. map_of (graph_ref G) k = None \<Longrightarrow> map_of (graph_ref G') k = None"
    and "\<And>k n. k \<noteq> mid \<Longrightarrow> map_of (graph_ref G) k = Some n \<Longrightarrow>
        (\<exists>n'. map_of (graph_ref G') k = Some n' \<and> same_static n n' \<and> check_rel n n' \<and>
           upstreams n' = upstreams n \<and>
           downstreams n' = (if k \<in> fst ` set (upstreams node)
                             then removeAll mid (downstreams n) else downstreams n))"
    and "map fst (missing_nodes_ref G') = map fst (missing_nodes_ref G)"
    and "set (missing_upstreams node) \<subseteq> dom (map_of (missing_nodes_ref G))"
    and "\<And>nm. map_of (missing_nodes_ref G') nm =
        map_option (\<lambda>ws. if nm \<in> set (missing_upstreams node) then removeAll mid ws else ws)
          (map_of (missing_nodes_ref G) nm)"
proof -
  let ?f = "\<lambda>info (n::'a DependencyNode). n\<lparr>model_config := info_model_config info,
                explicitly_load := info_explicitly_load info, upstreams := [],
                checked := False, status := Success\<rparr>"
  from r n obtain h1 h2 m info h3 where
    s1: "UncheckDownstream (downstreams node) (graph_ref G) = Inr h1" and
    s2: "UpdateNodes_disconnect mid (upstreams node) h1 = Inr h2" and
    s3: "erase_missing_refs mid (missing_upstreams node) (missing_nodes_ref G) = Inr m" and
    s4: "mm mid = Some info" and
    s5: "call_node mid (?f info) h2 = Inr h3" and
    g': "G' = G\<lparr>graph_ref := h3, missing_nodes_ref := m\<rparr>" and
    u: "upd' = List.insert mid upd"
    unfolding UpdateNodes_body_def by (auto split: sum.splits option.splits)
  note F2 = UpdateNodes_disconnect_frame[OF s2]
  note F3 = erase_missing_refs_frame[OF s3]
  from call_node_frame[OF s5] obtain nm2 where k5: "map fst h3 = map fst h2"
    and nm2: "map_of h2 mid = Some nm2" and m5: "map_of h3 = (map_of h2)(mid \<mapsto> ?f info nm2)"
    by blast
  let ?U = "fst ` set (upstreams node)"
  have gr: "graph_ref G' = h3" and w: "missing_nodes_ref G' = m"
    and gm: "global_map_ref G' = global_map_ref G"
    by (simp_all add: g')
  have keys: "map fst (graph_ref G') = map fst (graph_ref G)"
    using F2 k5 UncheckDownstream_keys[OF s1] by (simp add: gr)
  have sub: "?U \<subseteq> dom (map_of (graph_ref G))"
  proof
    fix x assume "x \<in> ?U"
    with F2 have "map_of h1 x \<noteq> None" by blast
    then show "x \<in> dom (map_of (graph_ref G))"
      using UncheckDownstream_None[OF s1, of x] by auto
  qed
  have none: "map_of (graph_ref G') k = None" if "map_of (graph_ref G) k = None" for k
  proof -
    have "map_of h1 k = None" using UncheckDownstream_None[OF s1] that by simp
    then have "map_of h2 k = None" using F2 by simp
    moreover have "k \<noteq> mid" using that n by auto
    ultimately show ?thesis by (simp add: gr m5)
  qed
  have step: "\<exists>n1. map_of h2 k = Some (if k \<in> ?U then DisconnectDownstream mid n1 else n1)
        \<and> unchecked_from n0 n1"
    if n0: "map_of (graph_ref G) k = Some n0" for k n0
  proof -
    from UncheckDownstream_Some[OF s1 n0] obtain n1 where
      a1: "map_of h1 k = Some n1" and u1: "unchecked_from n0 n1" by blast
    have "map_of h2 k = Some (if k \<in> ?U then DisconnectDownstream mid n1 else n1)"
      using F2 a1 by simp
    with u1 show ?thesis by blast
  qed
  have other: "\<exists>n'. map_of (graph_ref G') k = Some n' \<and> same_static n0 n' \<and> check_rel n0 n' \<and>
           upstreams n' = upstreams n0 \<and>
           downstreams n' = (if k \<in> ?U then removeAll mid (downstreams n0) else downstreams n0)"
    if k: "k \<noteq> mid" and n0: "map_of (graph_ref G) k = Some n0" for k n0
  proof -
    from step[OF n0] obtain n1 where
      a2: "map_of h2 k = Some (if k \<in> ?U then DisconnectDownstream mid n1 else n1)"
      and u1: "unchecked_from n0 n1" by blast
    have a3: "map_of (graph_ref G') k = Some (if k \<in> ?U then DisconnectDownstream mid n1 else n1)"
      using a2 k by (simp add: gr m5)
    note uf = unchecked_from_fields[OF u1] unchecked_from_check_rel[OF u1]
    show ?thesis using a3 uf by (cases "k \<in> ?U") (simp_all add: same_static_def check_rel_def)
  qed
  have self: "\<exists>info n'. mm mid = Some info \<and> map_of (graph_ref G') mid = Some n' \<and>
        model_config n' = info_model_config info \<and>
        explicitly_load n' = info_explicitly_load info \<and>
        upstreams n' = [] \<and> \<not> checked n' \<and> status n' = Success \<and>
        model_id n' = model_id node \<and> loaded_versions n' = loaded_versions node \<and>
        missing_upstreams n' = missing_upstreams node \<and>
        fuzzy_matched_upstreams n' = fuzzy_matched_upstreams node \<and>
        downstreams n' = (if mid \<in> ?U then removeAll mid (downstreams node) else downstreams node)"
  proof -
    from step[OF n] obtain n1 where
      a2: "map_of h2 mid = Some (if mid \<in> ?U then DisconnectDownstream mid n1 else n1)"
      and u1: "unchecked_from node n1" by blast
    have nm: "nm2 = (if mid \<in> ?U then DisconnectDownstream mid n1 else n1)"
      using a2 nm2 by simp
    have a3: "map_of (graph_ref G') mid = Some (?f info nm2)" by (simp add: gr m5)
    note uf = unchecked_from_fields[OF u1]
    show ?thesis using s4 a3 uf nm by (cases "mid \<in> ?U") (simp_all add: same_static_def)
  qed
  have c1: "map fst (missing_nodes_ref G') = map fst (missing_nodes_ref G)"
    and c2: "set (missing_upstreams node) \<subseteq> dom (map_of (missing_nodes_ref G))"
    and c3: "\<forall>nm. map_of (missing_nodes_ref G') nm =
        map_option (\<lambda>ws. if nm \<in> set (missing_upstreams node) then removeAll mid ws else ws)
          (map_of (missing_nodes_ref G) nm)"
    using F3 unfolding w by blast+
  show "upd' = List.insert mid upd" by (fact u)
  show "global_map_ref G' = global_map_ref G" by (fact gm)
  show "map fst (graph_ref G') = map fst (graph_ref G)" by (fact keys)
  show "?U \<subseteq> dom (map_of (graph_ref G))" by (fact sub)
  show "\<exists>info n'. mm mid = Some info \<and> map_of (graph_ref G') mid = Some n' \<and>
        model_config n' = info_model_config info \<and>
        explicitly_load n' = info_explicitly_load info \<and>
        upstreams n' = [] \<and> \<not> checked n' \<and> status n' = Success \<and>
        model_id n' = model_id node \<and> loaded_versions n' = loaded_versions node \<and>
        missing_upstreams n' = missing_upstreams node \<and>
        fuzzy_matched_upstreams n' = fuzzy_matched_upstreams node \<and>
        downstreams n' = (if mid \<in> ?U then removeAll mid (downstreams node) else downstreams node)"
    by (fact self)
  show "map_of (graph_ref G) k = None \<Longrightarrow> map_of (graph_ref G') k = None" for k
    by (fact none)
  show "k \<noteq> mid \<Longrightarrow> map_of (graph_ref G) k = Some n \<Longrightarrow>
        (\<exists>n'. map_of (graph_ref G') k = Some n' \<and> same_static n n' \<and> check_rel n n' \<and>
           upstreams n' = upstreams n \<and>
           downstreams n' = (if k \<in> ?U then removeAll mid (downstreams n) else downstreams n))"
    for k n
    by (fact other)
  show "map fst (missing_nodes_ref G') = map fst (missing_nodes_ref G)" by (fact c1)
  show "set (missing_upstreams node) \<subseteq> dom (map_of (missing_nodes_ref G))" by (fact c2)
  show "map_of (missing_nodes_ref G') nm =
        map_option (\<lambda>ws. if nm \<in> set (missing_upstreams node) then removeAll mid ws else ws)
          (map_of (missing_nodes_ref G) nm)" for nm
    using c3 by simp
qed

definition store_unchecked :: "'cfg node_store \<Rightarrow> 'cfg node_store \<Rightarrow> bool" where
  "store_unchecked h h' \<longleftrightarrow>
     map fst h' = map fst h \<and> (\<forall>k. rel_option unchecked_from (map_of h k) (map_of h' k))"

lemma store_unchecked_refl: "store_unchecked h h"
  by (simp add: store_unchecked_def option.rel_refl unchecked_from_refl)

lemma rel_option_unchecked_trans:
  "rel_option unchecked_from x y \<Longrightarrow> rel_option unchecked_from y z \<Longrightarrow>
   rel_option unchecked_from x z"
  by (cases x; cases y; cases z) (auto intro: unchecked_from_trans)

lemma store_unchecked_trans:
  "store_unchecked a b \<Longrightarrow> store_unchecked b c \<Longrightarrow> store_unchecked a c"
  unfolding store_unchecked_def using rel_option_unchecked_trans by fastforce

lemma UncheckDownstream_store: "UncheckDownstream ps h = Inr h' \<Longrightarrow> store_unchecked h h'"
  using UncheckDownstream_frame by (simp add: store_unchecked_def)

lemma store_unchecked_Some:
  "store_unchecked h h' \<Longrightarrow> map_of h k = Some n \<Longrightarrow>
   \<exists>n'. map_of h' k = Some n' \<and> unchecked_from n n'"
  unfolding store_unchecked_def by (auto simp: option_rel_Some1 dest!: spec[of _ k])

lemma store_unchecked_Some_rev:
  "store_unchecked h h' \<Longrightarrow> map_of h' k = Some n' \<Longrightarrow>
   \<exists>n. map_of h k = Some n \<and> unchecked_from n n'"
  unfolding store_unchecked_def by (auto simp: option_rel_Some2 dest!: spec[of _ k])

lemma store_unchecked_None:
  "store_unchecked h h' \<Longrightarrow> map_of h' k = None \<longleftrightarrow> map_of h k = None"
  unfolding store_unchecked_def
  by (cases "map_of h k"; cases "map_of h' k") (auto dest!: spec[of _ k])

lemma map_of_emplace_node:
  "map_of (emplace_node k n h) k' =
     (if k' = k \<and> map_of h k = None then Some n else map_of h k')"
  by (auto simp: emplace_node_def map_add_def split: option.splits)

lemma FindNode_exact:
  "FindNode mid False G = map_option (Pair mid) (map_of (graph_ref G) mid)"
  by (simp add: FindNode_def split: option.splits)

lemma AddNodes_dependents_frame:
  "AddNodes_dependents ds (G, aff) = Inr (G', aff') \<Longrightarrow>
   global_map_ref G' = global_map_ref G \<and> missing_nodes_ref G' = missing_nodes_ref G \<and>
   store_unchecked (graph_ref G) (graph_ref G') \<and>
   set aff' = set aff \<union> set (filter (\<lambda>d. map_of (graph_ref G) d \<noteq> None) ds)"
proof (induction ds arbitrary: G aff)
  case Nil
  then show ?case by (simp add: store_unchecked_refl)
next
  case (Cons d rest)
  show ?case
  proof (cases "map_of (graph_ref G) d")
    case None
    with Cons.prems have "AddNodes_dependents rest (G, aff) = Inr (G', aff')"
      by (simp add: FindNode_exact)
    from Cons.IH[OF this] None show ?thesis by simp
  next
    case (Some n)
    with Cons.prems obtain h where
      u: "UncheckDownstream [d] (graph_ref G) = Inr h" and
      r: "AddNodes_dependents rest (G\<lparr>graph_ref := h\<rparr>, List.insert d aff) = Inr (G', aff')"
      by (auto simp: FindNode_exact split: sum.splits)
    note IH = Cons.IH[OF r]
    note su = UncheckDownstream_store[OF u]
    have dom: "map_of h k \<noteq> None \<longleftrightarrow> map_of (graph_ref G) k \<noteq> None" for k
      using store_unchecked_None[OF su, of k] by simp
    have "store_unchecked (graph_ref G) (graph_ref G')"
      using store_unchecked_trans[OF su] IH by simp
    moreover have "filter (\<lambda>x. map_of h x \<noteq> None) rest
        = filter (\<lambda>x. map_of (graph_ref G) x \<noteq> None) rest"
      using dom by simp
    then have "set aff' = set aff \<union> set (filter (\<lambda>x. map_of (graph_ref G) x \<noteq> None) (d # rest))"
      using IH Some by simp
    ultimately show ?thesis using IH by simp
  qed
qed

lemma AddNodes_body_frame:
  assumes "AddNodes_body mm mid (G, aff) = Inr (G', aff')"
  shows "\<exists>info. mm mid = Some info \<and>
     global_map_ref G' = global_map_ref G \<and> missing_nodes_ref G' = missing_nodes_ref G \<and>
     store_unchecked (emplace_node mid (new_DependencyNode mid info) (graph_ref G)) (graph_ref G') \<and>
     insert mid (set aff) \<subseteq> set aff'"
proof -
  from assms obtain info where i: "mm mid = Some info"
    by (auto simp: AddNodes_body_def split: option.splits)
  let ?G1 = "G\<lparr>graph_ref := emplace_node mid (new_DependencyNode mid info) (graph_ref G)\<rparr>"
  show ?thesis
  proof (cases "map_of (missing_nodes_ref G) (name mid)")
    case None
    with assms i have "G' = ?G1" "aff' = List.insert mid aff"
      by (auto simp: AddNodes_body_def)
    with i show ?thesis by (auto simp: store_unchecked_refl)
  next
    case (Some ws)
    with assms i have "AddNodes_dependents ws (?G1, List.insert mid aff) = Inr (G', aff')"
      by (auto simp: AddNodes_body_def)
    from AddNodes_dependents_frame[OF this] i show ?thesis by auto
  qed
qed

section \<open>Properties of the graph\<close>

subsection \<open>Predicates on graph states\<close>

text \<open>
  The predicates that the theorems on the claims use quantify over the keys of the stored
  maps, so they can be evaluated on a given graph; each has a lemma that restates it over
  all identifiers and names. The predicates that only the proofs use (\<open>edges_ok\<close>,
  \<open>waiters_named\<close>, \<open>update_waiters\<close>, \<open>updated_node\<close>, the parts of \<open>cascade_inv\<close>,
  \<open>downstreams_closed\<close>) are stated over all identifiers directly.

  \<open>missing_names_registered\<close>: every name in a node's \<open>missing_upstreams_\<close> is a key of
  \<open>missing_nodes_ref_\<close>.
\<close>

definition missing_names_registered :: "'cfg DependencyGraph \<Rightarrow> bool" where
  "missing_names_registered G \<longleftrightarrow>
     (\<forall>k \<in> set (map fst (graph_ref G)).
        case map_of (graph_ref G) k of
          None \<Rightarrow> True
        | Some n \<Rightarrow> (\<forall>nm \<in> set (missing_upstreams n). map_of (missing_nodes_ref G) nm \<noteq> None))"


text \<open>
  Edge reciprocity, for the nodes of the graph: \<open>u\<close> is a key of \<open>n.upstreams_\<close> exactly
  when \<open>n\<close> is in \<open>u.downstreams_\<close>. \<open>edges_closed\<close>: every edge points to a node of the graph.
\<close>

definition edge_reciprocity :: "'cfg DependencyGraph \<Rightarrow> bool" where
  "edge_reciprocity G \<longleftrightarrow>
     (\<forall>k \<in> set (map fst (graph_ref G)). \<forall>u \<in> set (map fst (graph_ref G)).
        case map_of (graph_ref G) k of
          None \<Rightarrow> True
        | Some n \<Rightarrow>
            (case map_of (graph_ref G) u of
               None \<Rightarrow> True
             | Some un \<Rightarrow> (u \<in> fst ` set (upstreams n) \<longleftrightarrow> k \<in> set (downstreams un))))"

definition edges_closed :: "'cfg DependencyGraph \<Rightarrow> bool" where
  "edges_closed G \<longleftrightarrow>
     (\<forall>k \<in> set (map fst (graph_ref G)).
        case map_of (graph_ref G) k of
          None \<Rightarrow> True
        | Some n \<Rightarrow>
            (\<forall>u \<in> fst ` set (upstreams n). map_of (graph_ref G) u \<noteq> None) \<and>
            (\<forall>d \<in> set (downstreams n). map_of (graph_ref G) d \<noteq> None))"


text \<open>Both predicates together, over the node map.\<close>

definition edges_ok :: "'cfg node_store \<Rightarrow> bool" where
  "edges_ok g \<longleftrightarrow>
     (\<forall>k n u un. map_of g k = Some n \<longrightarrow> map_of g u = Some un \<longrightarrow>
        (u \<in> fst ` set (upstreams n) \<longleftrightarrow> k \<in> set (downstreams un))) \<and>
     (\<forall>k n x. map_of g k = Some n \<longrightarrow>
        x \<in> fst ` set (upstreams n) \<or> x \<in> set (downstreams n) \<longrightarrow> map_of g x \<noteq> None)"


text \<open>
  The graph states reachable from \<open>G0\<close> by calls of the three mutators that return.
\<close>

inductive mutated :: "'cfg DependencyGraph \<Rightarrow> 'cfg DependencyGraph \<Rightarrow> bool"
  for G0 :: "'cfg DependencyGraph" where
  start: "mutated G0 G0"
| add: "mutated G0 G \<Longrightarrow> AddNodes ids mm G = Inr (G', affected) \<Longrightarrow> mutated G0 G'"
| update: "mutated G0 G \<Longrightarrow> UpdateNodes ids mm G = Inr (G', updated) \<Longrightarrow> mutated G0 G'"
| remove: "mutated G0 G \<Longrightarrow> RemoveNodes ids cascading_removal G = Inr (G', affected, removed)
    \<Longrightarrow> mutated G0 G'"


text \<open>
  Waiter reciprocity, for the nodes of the graph: a name is in \<open>n.missing_upstreams_\<close>
  exactly when \<open>n\<close> is registered under the name in \<open>missing_nodes_ref_\<close>. \<open>waiters_closed\<close>:
  every registered waiter is a node of the graph.
\<close>

definition waiting :: "'cfg DependencyGraph \<Rightarrow> string \<Rightarrow> ModelIdentifier list" where
  "waiting G nm = (case map_of (missing_nodes_ref G) nm of None \<Rightarrow> [] | Some ws \<Rightarrow> ws)"

definition waiter_reciprocity :: "'cfg DependencyGraph \<Rightarrow> bool" where
  "waiter_reciprocity G \<longleftrightarrow>
     (\<forall>k \<in> set (map fst (graph_ref G)).
        case map_of (graph_ref G) k of
          None \<Rightarrow> True
        | Some n \<Rightarrow>
            (\<forall>nm \<in> set (missing_upstreams n) \<union> set (map fst (missing_nodes_ref G)).
               nm \<in> set (missing_upstreams n) \<longleftrightarrow> k \<in> set (waiting G nm)))"

definition waiters_closed :: "'cfg DependencyGraph \<Rightarrow> bool" where
  "waiters_closed G \<longleftrightarrow>
     (\<forall>nm \<in> set (map fst (missing_nodes_ref G)).
        \<forall>k \<in> set (waiting G nm). map_of (graph_ref G) k \<noteq> None)"


text \<open>One direction of the reciprocity: a registered waiter names the awaited model.\<close>

definition waiters_named :: "'cfg DependencyGraph \<Rightarrow> bool" where
  "waiters_named G \<longleftrightarrow>
     (\<forall>k n nm. map_of (graph_ref G) k = Some n \<longrightarrow> k \<in> set (waiting G nm) \<longrightarrow>
        nm \<in> set (missing_upstreams n))"


text \<open>The state of the waiters while \<open>UpdateNodes\<close> runs, \<open>upd\<close> being the nodes updated
  so far.\<close>

definition update_waiters :: "'cfg DependencyGraph \<Rightarrow> ModelIdentifier list \<Rightarrow> bool" where
  "update_waiters G upd \<longleftrightarrow>
     waiters_named G \<and> waiters_closed G \<and>
     (\<forall>k \<in> set upd. \<forall>nm. k \<notin> set (waiting G nm)) \<and>
     (\<forall>k n nm. map_of (graph_ref G) k = Some n \<longrightarrow> k \<notin> set upd \<longrightarrow>
        (nm \<in> set (missing_upstreams n) \<longleftrightarrow> k \<in> set (waiting G nm)))"


text \<open>\<open>no_missing\<close>: no node of the graph has a missing upstream.\<close>

definition no_missing :: "'cfg DependencyGraph \<Rightarrow> bool" where
  "no_missing G \<longleftrightarrow>
     (\<forall>k \<in> set (map fst (graph_ref G)).
        case map_of (graph_ref G) k of None \<Rightarrow> True | Some n \<Rightarrow> missing_upstreams n = [])"


text \<open>
  Name index coverage: an identifier has a node exactly when \<open>global_map_ref_\<close> lists it
  under its name.
\<close>

definition by_name :: "'cfg DependencyGraph \<Rightarrow> string \<Rightarrow> ModelIdentifier list" where
  "by_name G nm = (case map_of (global_map_ref G) nm of None \<Rightarrow> [] | Some ids \<Rightarrow> ids)"

definition name_index_coverage :: "'cfg DependencyGraph \<Rightarrow> bool" where
  "name_index_coverage G \<longleftrightarrow>
     (\<forall>k \<in> set (map fst (graph_ref G)). k \<in> set (by_name G (name k))) \<and>
     (\<forall>nm \<in> set (map fst (global_map_ref G)).
        \<forall>k \<in> set (by_name G nm). name k = nm \<longrightarrow> map_of (graph_ref G) k \<noteq> None)"


text \<open>What the loop of \<open>UpdateNodes\<close> has established for the node of \<open>mid\<close>, found as \<open>n\<close> in
  the graph the call started from.\<close>

definition updated_node ::
  "'cfg ModelInfo \<Rightarrow> 'cfg DependencyNode \<Rightarrow> 'cfg DependencyNode \<Rightarrow> bool" where
  "updated_node info n n' \<longleftrightarrow>
     upstreams n' = [] \<and> model_config n' = info_model_config info \<and>
     explicitly_load n' = info_explicitly_load info \<and> \<not> checked n' \<and> status n' = Success"


text \<open>
  \<open>ids_consistent\<close>: every node carries the identifier it is stored under.
  \<open>unreferenced\<close>: the identifier has a node that no node lists as upstream and that was not
  loaded explicitly, the test \<open>RemoveNodes\<close> makes before it queues an upstream.
\<close>

definition ids_consistent :: "'cfg DependencyGraph \<Rightarrow> bool" where
  "ids_consistent G \<longleftrightarrow>
     (\<forall>k \<in> set (map fst (graph_ref G)).
        case map_of (graph_ref G) k of None \<Rightarrow> True | Some n \<Rightarrow> model_id n = k)"

definition unreferenced :: "'cfg DependencyGraph \<Rightarrow> ModelIdentifier \<Rightarrow> bool" where
  "unreferenced G u \<longleftrightarrow>
     (case map_of (graph_ref G) u of
        None \<Rightarrow> False
      | Some un \<Rightarrow> downstreams un = [] \<and> \<not> explicitly_load un)"


text \<open>
  The state of a cascading removal that started from the node map \<open>g0\<close>: \<open>pending\<close> holds
  the identifiers still to be processed in the current wave and those queued for the
  next one, \<open>rem\<close> the identifiers processed so far.
\<close>

definition cascade_ids :: "'cfg DependencyGraph \<Rightarrow> bool" where
  "cascade_ids G \<longleftrightarrow> (\<forall>k n. map_of (graph_ref G) k = Some n \<longrightarrow> model_id n = k)"

definition cascade_tracks :: "'cfg node_store \<Rightarrow> 'cfg DependencyGraph \<Rightarrow> bool" where
  "cascade_tracks g0 G \<longleftrightarrow>
     (\<forall>k n. map_of (graph_ref G) k = Some n \<longrightarrow>
        (\<exists>n0. map_of g0 k = Some n0 \<and> explicitly_load n = explicitly_load n0 \<and>
           (\<forall>u. u \<in> fst ` set (upstreams n0) \<longrightarrow>
              map_of (graph_ref G) u \<noteq> None \<longrightarrow> u \<in> fst ` set (upstreams n))))"

definition cascade_removed ::
  "'cfg node_store \<Rightarrow> 'cfg DependencyGraph \<Rightarrow> ModelIdentifier list \<Rightarrow> bool" where
  "cascade_removed g0 G rem \<longleftrightarrow>
     (\<forall>k. map_of g0 k \<noteq> None \<longrightarrow> map_of (graph_ref G) k = None \<longrightarrow> k \<in> set rem)"

definition cascade_pending ::
  "'cfg node_store \<Rightarrow> 'cfg DependencyGraph \<Rightarrow> ModelIdentifier set \<Rightarrow> ModelIdentifier list
    \<Rightarrow> bool" where
  "cascade_pending g0 G pending rem \<longleftrightarrow>
     (\<forall>u d dn0. unreferenced G u \<longrightarrow> d \<in> set rem \<longrightarrow> map_of g0 d = Some dn0 \<longrightarrow>
        u \<in> fst ` set (upstreams dn0) \<longrightarrow> u \<in> pending)"

definition cascade_inv ::
  "'cfg node_store \<Rightarrow> 'cfg DependencyGraph \<Rightarrow> ModelIdentifier set \<Rightarrow> ModelIdentifier list
    \<Rightarrow> bool" where
  "cascade_inv g0 G pending rem \<longleftrightarrow>
     cascade_ids G \<and> cascade_tracks g0 G \<and> cascade_removed g0 G rem \<and>
     cascade_pending g0 G pending rem"


text \<open>Every downstream pointer stored in the node map points to a node of the map.\<close>

definition downstreams_closed :: "'cfg node_store \<Rightarrow> bool" where
  "downstreams_closed h \<longleftrightarrow>
     (\<forall>k n d. map_of h k = Some n \<longrightarrow> d \<in> set (downstreams n) \<longrightarrow> map_of h d \<noteq> None)"


text \<open>A graph on which no operation of the class can follow a dangling pointer or use
  a failed lookup.\<close>

definition well_formed :: "'cfg DependencyGraph \<Rightarrow> bool" where
  "well_formed G \<longleftrightarrow>
     edge_reciprocity G \<and> edges_closed G \<and> missing_names_registered G"


subsection \<open>The duplicate-repository reason\<close>

text \<open>
  Modelled from the spec: the duplicate check of the repository poller. \<open>Poll\<close> is declared
  in the header and its body is not part of the source file; the header only defines the
  reason string. Section 4.1 of the specification: with namespacing disabled, a model
  name found in two or more repositories is reported with the ready-reason
  \<open>MODEL_READY_REASON_DUPLICATE\<close>; with namespacing enabled the identifiers differ and no
  collision occurs. A listing pairs each repository path with the model names found
  in it.
\<close>

definition repositories_of :: "(string \<times> string list) list \<Rightarrow> string \<Rightarrow> string list" where
  "repositories_of listing nm =
     remdups (map fst (filter (\<lambda>entry. nm \<in> set (snd entry)) listing))"

definition duplicate_reason ::
  "bool \<Rightarrow> (string \<times> string list) list \<Rightarrow> string \<Rightarrow> string option" where
  "duplicate_reason enable_model_namespacing listing nm =
     (if \<not> enable_model_namespacing \<and> 2 \<le> length (repositories_of listing nm)
      then Some MODEL_READY_REASON_DUPLICATE else None)"

subsection \<open>An example graph\<close>

text \<open>
  An ensemble \<open>E\<close> with three dependencies: \<open>A\<close>, found under its own identifier; \<open>B\<close>,
  found in another namespace by its name alone; and \<open>M\<close>, which no repository offers, so
  that \<open>E\<close> waits for it.
\<close>

definition ex_A :: ModelIdentifier where "ex_A = ModelIdentifier [] ''A''"
definition ex_B :: ModelIdentifier where "ex_B = ModelIdentifier ''ns'' ''B''"
definition ex_E :: ModelIdentifier where "ex_E = ModelIdentifier [] ''E''"

definition ex_node_A :: "string DependencyNode" where
  "ex_node_A = \<lparr>model_id = ex_A, status = Success, checked = True, explicitly_load = False,
     model_config = ''a1'', loaded_versions = [1], missing_upstreams = [],
     fuzzy_matched_upstreams = [], upstreams = [], downstreams = [ex_E]\<rparr>"

definition ex_node_B :: "string DependencyNode" where
  "ex_node_B = \<lparr>model_id = ex_B, status = Success, checked = True, explicitly_load = False,
     model_config = ''b1'', loaded_versions = [1], missing_upstreams = [],
     fuzzy_matched_upstreams = [], upstreams = [], downstreams = [ex_E]\<rparr>"

definition ex_node_E :: "string DependencyNode" where
  "ex_node_E = \<lparr>model_id = ex_E, status = Failure ''dependency missing: M'', checked = True,
     explicitly_load = True,
     model_config = ''e1'', loaded_versions = [], missing_upstreams = [''M''],
     fuzzy_matched_upstreams = [''B''], upstreams = [(ex_A, [1]), (ex_B, [1])],
     downstreams = []\<rparr>"

definition ex_G :: "string DependencyGraph" where
  "ex_G = \<lparr>graph_ref = [(ex_A, ex_node_A), (ex_B, ex_node_B), (ex_E, ex_node_E)],
     global_map_ref = [(''A'', [ex_A]), (''B'', [ex_B]), (''E'', [ex_E])],
     missing_nodes_ref = [(''M'', [ex_E])]\<rparr>"

definition ex_infos :: "ModelIdentifier \<Rightarrow> string ModelInfo option" where
  "ex_infos mid = (if mid = ex_E then Some \<lparr>info_model_config = ''e2'', info_explicitly_load = False\<rparr>
     else if mid = ModelIdentifier [] ''M''
     then Some \<lparr>info_model_config = ''m1'', info_explicitly_load = True\<rparr> else None)"


definition ex_M :: ModelIdentifier where "ex_M = ModelIdentifier [] ''M''"

text \<open>The example graph after \<open>UpdateNodes\<close> of \<open>E\<close>, after \<open>AddNodes\<close> of \<open>M\<close>, after \<open>RemoveNodes\<close>
  of \<open>A\<close>, after \<open>RemoveNodes\<close> of \<open>B\<close>, and after the cascading \<open>RemoveNodes\<close> of \<open>E\<close>.\<close>

definition ex_node_E_updated :: "string DependencyNode" where
  "ex_node_E_updated = \<lparr>model_id = ex_E, status = Success, checked = False,
     explicitly_load = False,
     model_config = ''e2'', loaded_versions = [], missing_upstreams = [''M''],
     fuzzy_matched_upstreams = [''B''], upstreams = [], downstreams = []\<rparr>"

definition ex_G_updated :: "string DependencyGraph" where
  "ex_G_updated = \<lparr>graph_ref =
       [(ex_A, ex_node_A\<lparr>downstreams := []\<rparr>), (ex_B, ex_node_B\<lparr>downstreams := []\<rparr>),
        (ex_E, ex_node_E_updated)],
     global_map_ref = [(''A'', [ex_A]), (''B'', [ex_B]), (''E'', [ex_E])],
     missing_nodes_ref = [(''M'', [])]\<rparr>"

definition ex_G_added :: "string DependencyGraph" where
  "ex_G_added = \<lparr>graph_ref =
       [(ex_A, ex_node_A), (ex_B, ex_node_B),
        (ex_E, ex_node_E\<lparr>status := Success, checked := False\<rparr>),
        (ex_M, \<lparr>model_id = ex_M, status = Success, checked = False, explicitly_load = True,
           model_config = ''m1'', loaded_versions = [], missing_upstreams = [],
           fuzzy_matched_upstreams = [], upstreams = [], downstreams = []\<rparr>)],
     global_map_ref = [(''A'', [ex_A]), (''B'', [ex_B]), (''E'', [ex_E])],
     missing_nodes_ref = [(''M'', [ex_E])]\<rparr>"

definition ex_G_without_A :: "string DependencyGraph" where
  "ex_G_without_A = \<lparr>graph_ref =
       [(ex_B, ex_node_B),
        (ex_E, ex_node_E\<lparr>status := Success, checked := False, upstreams := [(ex_B, [1])]\<rparr>)],
     global_map_ref = [(''A'', [ex_A]), (''B'', [ex_B]), (''E'', [ex_E])],
     missing_nodes_ref = [(''M'', [ex_E])]\<rparr>"

definition ex_G_without_B :: "string DependencyGraph" where
  "ex_G_without_B = \<lparr>graph_ref =
       [(ex_A, ex_node_A),
        (ex_E, ex_node_E\<lparr>status := Success, checked := False, upstreams := [(ex_A, [1])]\<rparr>)],
     global_map_ref = [(''A'', [ex_A]), (''B'', [ex_B]), (''E'', [ex_E])],
     missing_nodes_ref = [(''M'', [ex_E])]\<rparr>"

definition ex_G_emptied :: "string DependencyGraph" where
  "ex_G_emptied = \<lparr>graph_ref = [],
     global_map_ref = [(''A'', [ex_A]), (''B'', [ex_B]), (''E'', [ex_E])],
     missing_nodes_ref = [(''M'', [])]\<rparr>"

definition ex_G_without_E :: "string DependencyGraph" where
  "ex_G_without_E = \<lparr>graph_ref =
       [(ex_A, ex_node_A\<lparr>downstreams := []\<rparr>), (ex_B, ex_node_B\<lparr>downstreams := []\<rparr>)],
     global_map_ref = [(''A'', [ex_A]), (''B'', [ex_B]), (''E'', [ex_E])],
     missing_nodes_ref = [(''M'', [])]\<rparr>"

text \<open>The empty graph, and the graph after \<open>AddNodes\<close> of \<open>M\<close> to it.\<close>

definition ex_G_empty :: "string DependencyGraph" where
  "ex_G_empty = \<lparr>graph_ref = [], global_map_ref = [], missing_nodes_ref = []\<rparr>"

definition ex_G_only_M :: "string DependencyGraph" where
  "ex_G_only_M = \<lparr>graph_ref =
       [(ex_M, \<lparr>model_id = ex_M, status = Success, checked = False, explicitly_load = True,
           model_config = ''m1'', loaded_versions = [], missing_upstreams = [],
           fuzzy_matched_upstreams = [], upstreams = [], downstreams = []\<rparr>)],
     global_map_ref = [], missing_nodes_ref = []\<rparr>"

section \<open>Auxiliary facts\<close>

lemma map_of_Some_key: "map_of h k = Some n \<Longrightarrow> k \<in> set (map fst h)"
  by (induction h) (auto split: if_splits)

lemma missing_names_registered_iff:
  "missing_names_registered G \<longleftrightarrow>
     (\<forall>k n nm. map_of (graph_ref G) k = Some n \<longrightarrow> nm \<in> set (missing_upstreams n) \<longrightarrow>
        map_of (missing_nodes_ref G) nm \<noteq> None)"
proof
  assume a: "missing_names_registered G"
  show "\<forall>k n nm. map_of (graph_ref G) k = Some n \<longrightarrow> nm \<in> set (missing_upstreams n) \<longrightarrow>
        map_of (missing_nodes_ref G) nm \<noteq> None"
  proof (intro allI impI)
    fix k n nm
    assume k: "map_of (graph_ref G) k = Some n" and nm: "nm \<in> set (missing_upstreams n)"
    from a map_of_Some_key[OF k] have
      "case map_of (graph_ref G) k of None \<Rightarrow> True
       | Some n \<Rightarrow> (\<forall>nm \<in> set (missing_upstreams n). map_of (missing_nodes_ref G) nm \<noteq> None)"
      unfolding missing_names_registered_def by blast
    with k nm show "map_of (missing_nodes_ref G) nm \<noteq> None" by simp
  qed
next
  assume "\<forall>k n nm. map_of (graph_ref G) k = Some n \<longrightarrow> nm \<in> set (missing_upstreams n) \<longrightarrow>
        map_of (missing_nodes_ref G) nm \<noteq> None"
  then show "missing_names_registered G"
    unfolding missing_names_registered_def by (simp split: option.splits)
qed


lemma erase_missing_refs_ok:
  "set names \<subseteq> dom (map_of m) \<Longrightarrow> \<exists>m'. erase_missing_refs key names m = Inr m'"
proof (induction names arbitrary: m)
  case Nil
  then show ?case by simp
next
  case (Cons x rest)
  then obtain ws where ws: "map_of m x = Some ws" by auto
  have "set rest \<subseteq> dom (map_of (AList.update x (removeAll key ws) m))"
    using Cons.prems by (auto simp: update_conv')
  from Cons.IH[OF this] ws show ?case by simp
qed

lemma call_node_error: "call_node p f h = Inl e \<Longrightarrow> e = DanglingNode"
  by (auto simp: call_node_def split: option.splits)

lemma UncheckDownstream_error: "UncheckDownstream ps h = Inl e \<Longrightarrow> e = DanglingNode"
proof (induction ps h rule: UncheckDownstream.induct)
  case (1 h)
  then show ?case by simp
next
  case (2 p ps h)
  show ?case
  proof (cases "map_of h p")
    case None
    with "2.prems" show ?thesis by simp
  next
    case (Some node)
    show ?thesis
    proof (cases "checked node")
      case True
      let ?h1 = "AList.update p (node\<lparr>checked := False, status := Success\<rparr>) h"
      show ?thesis
      proof (cases "UncheckDownstream (downstreams node) ?h1")
        case (Inl e')
        with "2.prems" Some True have "e' = e" by simp
        with "2.IH"(1)[OF Some True] Inl show ?thesis by simp
      next
        case (Inr h')
        with "2.prems" Some True have "UncheckDownstream ps h' = Inl e" by simp
        with "2.IH"(2)[OF Some True Inr] show ?thesis by simp
      qed
    next
      case False
      with "2.prems" Some have "UncheckDownstream ps h = Inl e" by simp
      with "2.IH"(3)[OF Some False] show ?thesis by simp
    qed
  qed
qed

lemma RemoveNode_upstreams_error:
  "RemoveNode_upstreams mid ups acc h = Inl e \<Longrightarrow> e = DanglingNode"
  by (induction ups arbitrary: acc h) (auto split: option.splits)

lemma RemoveNode_downstreams_error:
  "RemoveNode_downstreams mid ds h = Inl e \<Longrightarrow> e = DanglingNode"
  by (induction ds arbitrary: h) (auto split: sum.splits dest: call_node_error)

lemma UpdateNodes_disconnect_error:
  "UpdateNodes_disconnect mid ups h = Inl e \<Longrightarrow> e = DanglingNode"
  by (induction ups arbitrary: h) (auto split: sum.splits dest: call_node_error)

lemma RemoveNode_no_end_deref:
  assumes "missing_names_registered G"
  shows "RemoveNode mid G \<noteq> Inl EndIteratorDeref"
proof (cases "map_of (graph_ref G) mid")
  case None
  then show ?thesis by (simp add: RemoveNode_def)
next
  case (Some node)
  have "set (missing_upstreams node) \<subseteq> dom (map_of (missing_nodes_ref G))"
    using assms Some unfolding missing_names_registered_iff by blast
  from erase_missing_refs_ok[OF this] obtain m where
    m: "erase_missing_refs mid (missing_upstreams node) (missing_nodes_ref G) = Inr m" by blast
  show ?thesis
  proof (cases "RemoveNode_upstreams mid (upstreams node) [] (graph_ref G)")
    case (Inl e)
    with RemoveNode_upstreams_error[OF Inl] Some show ?thesis by (simp add: RemoveNode_def)
  next
    case (Inr r1)
    obtain h1 ups where r1: "r1 = (h1, ups)" by (cases r1)
    show ?thesis
    proof (cases "map_of h1 mid")
      case None
      with Some Inr r1 show ?thesis by (simp add: RemoveNode_def)
    next
      case n1: (Some node1)
      show ?thesis
      proof (cases "UncheckDownstream (downstreams node1) h1")
        case (Inl e)
        with UncheckDownstream_error[OF Inl] Some Inr r1 n1 show ?thesis
          by (simp add: RemoveNode_def)
      next
        case u: (Inr h2)
        show ?thesis
        proof (cases "RemoveNode_downstreams mid (downstreams node1) h2")
          case (Inl e)
          with RemoveNode_downstreams_error[OF Inl] Some Inr r1 n1 u show ?thesis
            by (simp add: RemoveNode_def)
        next
          case d: (Inr h3)
          with Some Inr r1 n1 u m show ?thesis by (simp add: RemoveNode_def)
        qed
      qed
    qed
  qed
qed

lemma UpdateNodes_body_no_end_deref:
  assumes "missing_names_registered G"
  shows "UpdateNodes_body mm mid (G, upd) \<noteq> Inl EndIteratorDeref"
proof (cases "map_of (graph_ref G) mid")
  case None
  then show ?thesis by (simp add: UpdateNodes_body_def)
next
  case (Some node)
  have "set (missing_upstreams node) \<subseteq> dom (map_of (missing_nodes_ref G))"
    using assms Some unfolding missing_names_registered_iff by blast
  from erase_missing_refs_ok[OF this] obtain m where
    m: "erase_missing_refs mid (missing_upstreams node) (missing_nodes_ref G) = Inr m" by blast
  show ?thesis
  proof (cases "UncheckDownstream (downstreams node) (graph_ref G)")
    case (Inl e)
    with UncheckDownstream_error[OF Inl] Some show ?thesis by (simp add: UpdateNodes_body_def)
  next
    case u: (Inr h1)
    show ?thesis
    proof (cases "UpdateNodes_disconnect mid (upstreams node) h1")
      case (Inl e)
      with UpdateNodes_disconnect_error[OF Inl] Some u show ?thesis
        by (simp add: UpdateNodes_body_def)
    next
      case d: (Inr h2)
      show ?thesis
      proof (cases "mm mid")
        case None
        with Some u d m show ?thesis by (simp add: UpdateNodes_body_def)
      next
        case i: (Some info)
        show ?thesis
        proof (cases "call_node mid (\<lambda>n. n\<lparr>model_config := info_model_config info,
                explicitly_load := info_explicitly_load info, upstreams := [],
                checked := False, status := Success\<rparr>) h2")
          case (Inl e)
          with call_node_error[OF Inl] Some u d m i show ?thesis
            by (simp add: UpdateNodes_body_def)
        next
          case (Inr h3)
          with Some u d m i show ?thesis by (simp add: UpdateNodes_body_def)
        qed
      qed
    qed
  qed
qed

lemma dom_map_of_keys: "map fst m' = map fst m \<Longrightarrow> map_of m' k = None \<longleftrightarrow> map_of m k = None"
  by (metis map_of_eq_None_iff set_map)

lemma UpdateNodes_body_registered:
  assumes inv: "missing_names_registered G"
    and r: "UpdateNodes_body mm mid (G, upd) = Inr (G', upd')"
  shows "missing_names_registered G'"
proof (cases "map_of (graph_ref G) mid")
  case None
  with r inv show ?thesis by (simp add: UpdateNodes_body_absent)
next
  case (Some node)
  note P = UpdateNodes_body_present[OF r Some]
  have w: "map_of (missing_nodes_ref G') nm = None \<longleftrightarrow> map_of (missing_nodes_ref G) nm = None" for nm
    using P(8) by (rule dom_map_of_keys)
  show ?thesis
    unfolding missing_names_registered_iff
  proof (intro allI impI)
    fix k n' nm
    assume a: "map_of (graph_ref G') k = Some n'" and b: "nm \<in> set (missing_upstreams n')"
    have "\<exists>n. map_of (graph_ref G) k = Some n \<and> missing_upstreams n' = missing_upstreams n"
    proof (cases "k = mid")
      case True
      with P(5) a Some show ?thesis by auto
    next
      case False
      from a P(6)[of k] have "map_of (graph_ref G) k \<noteq> None" by auto
      then obtain n where n: "map_of (graph_ref G) k = Some n" by auto
      from P(7)[OF False n] obtain n2 where "map_of (graph_ref G') k = Some n2" "same_static n n2"
        by auto
      with a n show ?thesis by (simp add: same_static_def)
    qed
    then obtain n where "map_of (graph_ref G) k = Some n" "missing_upstreams n' = missing_upstreams n"
      by auto
    with inv b have "map_of (missing_nodes_ref G) nm \<noteq> None"
      unfolding missing_names_registered_iff by simp
    then show "map_of (missing_nodes_ref G') nm \<noteq> None" using w by simp
  qed
qed

lemma UpdateNodes_loop_no_end_deref:
  "missing_names_registered (fst st) \<Longrightarrow> UpdateNodes_loop mm ids st \<noteq> Inl EndIteratorDeref"
proof (induction ids arbitrary: st)
  case Nil
  then show ?case by simp
next
  case (Cons mid rest)
  obtain G upd where st: "st = (G, upd)" by (cases st)
  show ?case
  proof (cases "UpdateNodes_body mm mid (G, upd)")
    case (Inl e)
    with UpdateNodes_body_no_end_deref[of G mm mid upd] Cons.prems st show ?thesis by auto
  next
    case (Inr st')
    obtain G' upd' where st': "st' = (G', upd')" by (cases st')
    from UpdateNodes_body_registered[of G mm mid upd G' upd'] Cons.prems st Inr st'
    have "missing_names_registered (fst st')" by simp
    from Cons.IH[OF this] Inr st show ?thesis by simp
  qed
qed


declare RemoveNodes_loop.simps [simp del]

lemma RemoveNodes_wave_rule:
  assumes "RemoveNodes_wave c cur (G, nx, a, r) = Inr (G', nx', a', r')"
    and "J cur G nx a r"
    and "\<And>mid rest G nx a r G1 nx1 a1 r1.
          J (mid # rest) G nx a r \<Longrightarrow>
          RemoveNodes_body c mid (G, nx, a, r) = Inr (G1, nx1, a1, r1) \<Longrightarrow>
          J rest G1 nx1 a1 r1"
  shows "J [] G' nx' a' r'"
  using assms(1,2)
proof (induction cur arbitrary: G nx a r)
  case Nil
  then show ?case by simp
next
  case (Cons mid rest)
  from Cons.prems(1) obtain G1 nx1 a1 r1 where
    b: "RemoveNodes_body c mid (G, nx, a, r) = Inr (G1, nx1, a1, r1)" and
    w: "RemoveNodes_wave c rest (G1, nx1, a1, r1) = Inr (G', nx', a', r')"
    by (auto split: sum.splits)
  from assms(3)[OF Cons.prems(2) b] have "J rest G1 nx1 a1 r1" .
  from Cons.IH[OF w this] show ?case .
qed

lemma RemoveNodes_loop_rule:
  assumes "RemoveNodes_loop c cur G a r = Inr (G', a', r')"
    and "I cur G a r"
    and "\<And>cur G a r G1 nx a1 r1.
          cur \<noteq> [] \<Longrightarrow> I cur G a r \<Longrightarrow>
          RemoveNodes_wave c cur (G, [], a, r) = Inr (G1, nx, a1, r1) \<Longrightarrow>
          I nx G1 a1 r1"
  shows "I [] G' a' r'"
  using assms
proof (induction c cur G a r rule: RemoveNodes_loop.induct)
  case (1 c cur G a r)
  show ?case
  proof (cases "cur = []")
    case True
    with "1.prems"(1,2) show ?thesis by (simp add: RemoveNodes_loop.simps)
  next
    case False
    from "1.prems"(1) False obtain G1 nx a1 r1 where
      w: "RemoveNodes_wave c cur (G, [], a, r) = Inr (G1, nx, a1, r1)" and
      l: "RemoveNodes_loop c nx G1 a1 r1 = Inr (G', a', r')"
      by (subst (asm) RemoveNodes_loop.simps) (auto split: sum.splits)
    from "1.prems"(3)[OF False "1.prems"(2) w] have i: "I nx G1 a1 r1" .
    show ?thesis
      by (rule "1.IH"[OF False w refl refl refl l i]) (rule "1.prems"(3), assumption+)
  qed
qed

lemma UpdateNodes_loop_rule:
  assumes "UpdateNodes_loop mm ids (G, upd) = Inr (G', upd')"
    and "J ids G upd"
    and "\<And>mid rest G upd G1 upd1.
          J (mid # rest) G upd \<Longrightarrow>
          UpdateNodes_body mm mid (G, upd) = Inr (G1, upd1) \<Longrightarrow> J rest G1 upd1"
  shows "J [] G' upd'"
  using assms(1,2)
proof (induction ids arbitrary: G upd)
  case Nil
  then show ?case by simp
next
  case (Cons mid rest)
  from Cons.prems(1) obtain G1 upd1 where
    b: "UpdateNodes_body mm mid (G, upd) = Inr (G1, upd1)" and
    w: "UpdateNodes_loop mm rest (G1, upd1) = Inr (G', upd')"
    by (auto split: sum.splits)
  from assms(3)[OF Cons.prems(2) b] have "J rest G1 upd1" .
  from Cons.IH[OF w this] show ?case .
qed

lemma AddNodes_loop_rule:
  assumes "AddNodes_loop mm ids (G, aff) = Inr (G', aff')"
    and "J ids G aff"
    and "\<And>mid rest G aff G1 aff1.
          J (mid # rest) G aff \<Longrightarrow>
          AddNodes_body mm mid (G, aff) = Inr (G1, aff1) \<Longrightarrow> J rest G1 aff1"
  shows "J [] G' aff'"
  using assms(1,2)
proof (induction ids arbitrary: G aff)
  case Nil
  then show ?case by simp
next
  case (Cons mid rest)
  from Cons.prems(1) obtain G1 aff1 where
    b: "AddNodes_body mm mid (G, aff) = Inr (G1, aff1)" and
    w: "AddNodes_loop mm rest (G1, aff1) = Inr (G', aff')"
    by (auto split: sum.splits)
  from assms(3)[OF Cons.prems(2) b] have "J rest G1 aff1" .
  from Cons.IH[OF w this] show ?case .
qed

lemma RemoveNode_downs: "RemoveNode mid G = Inr (G', ups, downs) \<Longrightarrow> downs = []"
  by (cases "map_of (graph_ref G) mid") (auto simp: RemoveNode_absent dest: RemoveNode_present(1))

lemma RemoveNodes_body_sets:
  assumes "RemoveNodes_body c mid (G, nx, a, r) = Inr (G', nx', a', r')"
  shows "r' = List.insert mid r" and "a' = removeAll mid a"
proof -
  from assms obtain ups downs where rn: "RemoveNode mid G = Inr (G', ups, downs)"
    and r': "r' = List.insert mid r" and a': "a' = removeAll mid (fold List.insert downs a)"
    by (auto simp: RemoveNodes_body_def split: sum.splits)
  from RemoveNode_downs[OF rn] a' show "a' = removeAll mid a" by simp
  show "r' = List.insert mid r" by (fact r')
qed

lemma RemoveNodes_removed_superset:
  assumes "RemoveNodes ids c G = Inr (G', aff, rem)"
  shows "set ids \<subseteq> set rem"
proof -
  let ?S = "set ids"
  have "?S \<subseteq> set rem \<union> set []"
  proof (rule RemoveNodes_loop_rule[where I = "\<lambda>cur G a r. ?S \<subseteq> set r \<union> set cur"
        and c = c and cur = ids and G = G and a = "[]" and r = "[]"])
    show "RemoveNodes_loop c ids G [] [] = Inr (G', aff, rem)"
      using assms by (simp add: RemoveNodes_def)
    show "?S \<subseteq> set [] \<union> set ids" by simp
  next
    fix cur G a r G1 nx a1 r1
    assume i: "?S \<subseteq> set r \<union> set cur"
      and w: "RemoveNodes_wave c cur (G :: 'a DependencyGraph, [], a, r) = Inr (G1, nx, a1, r1)"
    have "?S \<subseteq> set r1 \<union> set []"
    proof (rule RemoveNodes_wave_rule[where J = "\<lambda>cur G nx a r. ?S \<subseteq> set r \<union> set cur", OF w i])
      fix mid rest G nx a r G1 nx1 a1 r1
      assume "?S \<subseteq> set r \<union> set (mid # rest)"
        and "RemoveNodes_body c mid (G :: 'a DependencyGraph, nx, a, r) = Inr (G1, nx1, a1, r1)"
      with RemoveNodes_body_sets(1)[of c mid G nx a r G1 nx1 a1 r1]
      show "?S \<subseteq> set r1 \<union> set rest" by auto
    qed
    then show "?S \<subseteq> set r1 \<union> set nx" by auto
  qed
  then show ?thesis by simp
qed

lemma RemoveNodes_affected_empty:
  assumes "RemoveNodes ids c G = Inr (G', aff, rem)"
  shows "aff = []"
proof (rule RemoveNodes_loop_rule[where I = "\<lambda>cur G a r. a = []"
        and c = c and cur = ids and G = G and a = "[]" and r = "[]"])
  show "RemoveNodes_loop c ids G [] [] = Inr (G', aff, rem)"
    using assms by (simp add: RemoveNodes_def)
  show "([] :: ModelIdentifier list) = []" by simp
next
  fix cur G a r G1 nx a1 r1
  assume i: "a = ([] :: ModelIdentifier list)"
    and w: "RemoveNodes_wave c cur (G :: 'a DependencyGraph, [], a, r) = Inr (G1, nx, a1, r1)"
  show "a1 = []"
  proof (rule RemoveNodes_wave_rule[where J = "\<lambda>cur G nx a r. a = []", OF w i])
    fix mid rest G nx a r G1 nx1 a1 r1
    assume "a = ([] :: ModelIdentifier list)"
      and "RemoveNodes_body c mid (G :: 'a DependencyGraph, nx, a, r) = Inr (G1, nx1, a1, r1)"
    with RemoveNodes_body_sets(2)[of c mid G nx a r G1 nx1 a1 r1]
    show "a1 = []" by simp
  qed
qed

lemmas ex_defs =
  ex_A_def ex_B_def ex_E_def ex_M_def ex_node_A_def ex_node_B_def ex_node_E_def ex_G_def
  ex_infos_def ex_node_E_updated_def ex_G_updated_def ex_G_added_def ex_G_without_A_def
  ex_G_without_B_def
  ex_G_emptied_def ex_G_without_E_def ex_G_empty_def ex_G_only_M_def

lemmas eval_defs =
  RemoveNodes_def RemoveNodes_loop.simps RemoveNodes_body_def RemoveNode_def FindNode_def
  call_node_def DisconnectDownstream_def DisconnectUpstream_def UpdateNodes_def
  UpdateNodes_body_def AddNodes_def AddNodes_body_def emplace_node_def new_DependencyNode_def

lemma repositories_of_member:
  "(r, names) \<in> set listing \<Longrightarrow> nm \<in> set names \<Longrightarrow> r \<in> set (repositories_of listing nm)"
  by (force simp: repositories_of_def)

lemma two_repositories:
  assumes "r1 \<in> set (repositories_of listing nm)" "r2 \<in> set (repositories_of listing nm)"
    and "r1 \<noteq> r2"
  shows "2 \<le> length (repositories_of listing nm)"
proof -
  let ?xs = "map fst (filter (\<lambda>entry. nm \<in> set (snd entry)) listing)"
  have "{r1, r2} \<subseteq> set ?xs" using assms(1,2) by (simp add: repositories_of_def)
  then have "card {r1, r2} \<le> card (set ?xs)" by (intro card_mono) simp_all
  moreover have "card {r1, r2} = 2" using assms(3) by simp
  moreover have "length (repositories_of listing nm) = card (set ?xs)"
    by (simp add: repositories_of_def length_remdups_card_conv)
  ultimately show ?thesis by simp
qed

subsection \<open>Edges\<close>

lemma edge_reciprocity_iff:
  "edge_reciprocity G \<longleftrightarrow>
     (\<forall>k n u un. map_of (graph_ref G) k = Some n \<longrightarrow> map_of (graph_ref G) u = Some un \<longrightarrow>
        (u \<in> fst ` set (upstreams n) \<longleftrightarrow> k \<in> set (downstreams un)))"
proof
  assume a: "edge_reciprocity G"
  show "\<forall>k n u un. map_of (graph_ref G) k = Some n \<longrightarrow> map_of (graph_ref G) u = Some un \<longrightarrow>
        (u \<in> fst ` set (upstreams n) \<longleftrightarrow> k \<in> set (downstreams un))"
  proof (intro allI impI)
    fix k n u un
    assume k: "map_of (graph_ref G) k = Some n" and u: "map_of (graph_ref G) u = Some un"
    from a map_of_Some_key[OF k] map_of_Some_key[OF u] have
      "case map_of (graph_ref G) k of None \<Rightarrow> True
       | Some n \<Rightarrow> (case map_of (graph_ref G) u of None \<Rightarrow> True
          | Some un \<Rightarrow> (u \<in> fst ` set (upstreams n) \<longleftrightarrow> k \<in> set (downstreams un)))"
      unfolding edge_reciprocity_def by fast
    with k u show "u \<in> fst ` set (upstreams n) \<longleftrightarrow> k \<in> set (downstreams un)" by simp
  qed
next
  assume "\<forall>k n u un. map_of (graph_ref G) k = Some n \<longrightarrow> map_of (graph_ref G) u = Some un \<longrightarrow>
        (u \<in> fst ` set (upstreams n) \<longleftrightarrow> k \<in> set (downstreams un))"
  then show "edge_reciprocity G"
    unfolding edge_reciprocity_def by (simp split: option.splits)
qed

lemma edges_closed_iff:
  "edges_closed G \<longleftrightarrow>
     (\<forall>k n x. map_of (graph_ref G) k = Some n \<longrightarrow>
        x \<in> fst ` set (upstreams n) \<or> x \<in> set (downstreams n) \<longrightarrow>
        map_of (graph_ref G) x \<noteq> None)"
proof
  assume a: "edges_closed G"
  show "\<forall>k n x. map_of (graph_ref G) k = Some n \<longrightarrow>
        x \<in> fst ` set (upstreams n) \<or> x \<in> set (downstreams n) \<longrightarrow>
        map_of (graph_ref G) x \<noteq> None"
  proof (intro allI impI)
    fix k n x
    assume k: "map_of (graph_ref G) k = Some n"
      and x: "x \<in> fst ` set (upstreams n) \<or> x \<in> set (downstreams n)"
    from a map_of_Some_key[OF k] have
      "case map_of (graph_ref G) k of None \<Rightarrow> True
       | Some n \<Rightarrow> (\<forall>u \<in> fst ` set (upstreams n). map_of (graph_ref G) u \<noteq> None) \<and>
            (\<forall>d \<in> set (downstreams n). map_of (graph_ref G) d \<noteq> None)"
      unfolding edges_closed_def by fast
    with k have "(\<forall>u \<in> fst ` set (upstreams n). map_of (graph_ref G) u \<noteq> None) \<and>
            (\<forall>d \<in> set (downstreams n). map_of (graph_ref G) d \<noteq> None)" by simp
    with x show "map_of (graph_ref G) x \<noteq> None" by fast
  qed
next
  assume "\<forall>k n x. map_of (graph_ref G) k = Some n \<longrightarrow>
        x \<in> fst ` set (upstreams n) \<or> x \<in> set (downstreams n) \<longrightarrow>
        map_of (graph_ref G) x \<noteq> None"
  then show "edges_closed G"
    unfolding edges_closed_def by (simp split: option.splits)
qed

lemma edges_ok_iff: "edges_ok (graph_ref G) \<longleftrightarrow> edge_reciprocity G \<and> edges_closed G"
  by (simp add: edges_ok_def edge_reciprocity_iff edges_closed_iff)

lemma edges_okD:
  assumes "edges_ok g" "map_of g k = Some n"
  shows "map_of g u = Some un \<Longrightarrow> u \<in> fst ` set (upstreams n) \<longleftrightarrow> k \<in> set (downstreams un)"
    and "x \<in> fst ` set (upstreams n) \<Longrightarrow> map_of g x \<noteq> None"
    and "x \<in> set (downstreams n) \<Longrightarrow> map_of g x \<noteq> None"
  using assms unfolding edges_ok_def by fast+

lemma keys_delete: "fst ` set (AList.delete k al) = fst ` set al - {k}"
  by (induction al) auto

lemma RemoveNode_present_rev:
  assumes r: "RemoveNode mid G = Inr (G', ups, downs)"
    and n: "map_of (graph_ref G) mid = Some node"
    and k: "map_of (graph_ref G') k = Some n'"
  shows "k \<noteq> mid \<and> (\<exists>n0. map_of (graph_ref G) k = Some n0 \<and> same_static n0 n' \<and>
           downstreams n' = (if k \<in> fst ` set (upstreams node)
                             then removeAll mid (downstreams n0) else downstreams n0) \<and>
           upstreams n' = (if k \<in> set (downstreams node)
                           then AList.delete mid (upstreams n0) else upstreams n0) \<and>
           (checked n' \<longrightarrow> checked n0))"
proof -
  note P = RemoveNode_present[OF r n]
  have km: "k \<noteq> mid" using P(4) k by auto
  have "map_of (graph_ref G) k \<noteq> None" using P(7)[of k] k by auto
  then obtain n0 where n0: "map_of (graph_ref G) k = Some n0" by auto
  from P(8)[OF km n0] k km n0 show ?thesis by auto
qed

lemma RemoveNode_edges:
  assumes inv: "edges_ok (graph_ref G)"
    and r: "RemoveNode mid G = Inr (G', ups, downs)"
  shows "edges_ok (graph_ref G')"
proof (cases "map_of (graph_ref G) mid")
  case None
  with r inv show ?thesis by (simp add: RemoveNode_absent)
next
  case (Some node)
  note P = RemoveNode_present[OF r Some]
  note R = RemoveNode_present_rev[OF r Some]
  let ?g = "graph_ref G" and ?g' = "graph_ref G'"
  let ?U = "fst ` set (upstreams node)" and ?D = "set (downstreams node)"
  have recip: "u \<in> fst ` set (upstreams n') \<longleftrightarrow> k \<in> set (downstreams un')"
    if k: "map_of ?g' k = Some n'" and u: "map_of ?g' u = Some un'" for k n' u un'
  proof -
    from R[OF k] obtain n0 where km: "k \<noteq> mid" and n0: "map_of ?g k = Some n0"
      and un: "upstreams n' = (if k \<in> ?D then AList.delete mid (upstreams n0) else upstreams n0)"
      by auto
    from R[OF u] obtain un0 where um: "u \<noteq> mid" and un0: "map_of ?g u = Some un0"
      and dn: "downstreams un' = (if u \<in> ?U then removeAll mid (downstreams un0) else downstreams un0)"
      by auto
    have "u \<in> fst ` set (upstreams n') \<longleftrightarrow> u \<in> fst ` set (upstreams n0)"
      using um by (simp add: un keys_delete)
    moreover have "k \<in> set (downstreams un') \<longleftrightarrow> k \<in> set (downstreams un0)"
      using km by (simp add: dn)
    ultimately show ?thesis using edges_okD(1)[OF inv n0 un0] by simp
  qed
  have closed: "map_of ?g' x \<noteq> None"
    if k: "map_of ?g' k = Some n'"
      and x: "x \<in> fst ` set (upstreams n') \<or> x \<in> set (downstreams n')" for k n' x
  proof -
    from R[OF k] obtain n0 where km: "k \<noteq> mid" and n0: "map_of ?g k = Some n0"
      and un: "upstreams n' = (if k \<in> ?D then AList.delete mid (upstreams n0) else upstreams n0)"
      and dn: "downstreams n' = (if k \<in> ?U then removeAll mid (downstreams n0) else downstreams n0)"
      by auto
    have xm: "x \<noteq> mid"
    proof
      assume e: "x = mid"
      from x show False
      proof
        assume "x \<in> fst ` set (upstreams n')"
        then have "mid \<in> fst ` set (upstreams n0)" "k \<notin> ?D"
          using e un by (auto simp: keys_delete split: if_splits)
        with edges_okD(1)[OF inv n0 Some] show False by simp
      next
        assume "x \<in> set (downstreams n')"
        then have "mid \<in> set (downstreams n0)" "k \<notin> ?U"
          using e dn by (auto split: if_splits)
        with edges_okD(1)[OF inv Some n0] show False by simp
      qed
    qed
    have "x \<in> fst ` set (upstreams n0) \<or> x \<in> set (downstreams n0)"
      using x un dn by (auto simp: keys_delete split: if_splits)
    then have "map_of ?g x \<noteq> None" using edges_okD(2,3)[OF inv n0] by auto
    then obtain xn where "map_of ?g x = Some xn" by auto
    from P(8)[OF xm this] show ?thesis by auto
  qed
  show ?thesis unfolding edges_ok_def using recip closed by blast
qed

lemma UpdateNodes_body_present_rev:
  assumes r: "UpdateNodes_body mm mid (G, upd) = Inr (G', upd')"
    and n: "map_of (graph_ref G) mid = Some node"
    and k: "map_of (graph_ref G') k = Some n'"
  shows "\<exists>n0. map_of (graph_ref G) k = Some n0 \<and>
           missing_upstreams n' = missing_upstreams n0 \<and>
           fuzzy_matched_upstreams n' = fuzzy_matched_upstreams n0 \<and>
           model_id n' = model_id n0 \<and>
           upstreams n' = (if k = mid then [] else upstreams n0) \<and>
           downstreams n' = (if k \<in> fst ` set (upstreams node)
                             then removeAll mid (downstreams n0) else downstreams n0)"
proof (cases "k = mid")
  case True
  from UpdateNodes_body_present(5)[OF r n] obtain n2 where
    "map_of (graph_ref G') mid = Some n2" "upstreams n2 = []" "model_id n2 = model_id node"
    "missing_upstreams n2 = missing_upstreams node"
    "fuzzy_matched_upstreams n2 = fuzzy_matched_upstreams node"
    "downstreams n2 = (if mid \<in> fst ` set (upstreams node)
                          then removeAll mid (downstreams node) else downstreams node)"
    by blast
  with k n True show ?thesis by simp
next
  case False
  note P = UpdateNodes_body_present[OF r n]
  have "map_of (graph_ref G) k \<noteq> None" using P(6)[of k] k by auto
  then obtain n0 where n0: "map_of (graph_ref G) k = Some n0" by auto
  from P(7)[OF False n0] k False n0 show ?thesis by (auto simp: same_static_def)
qed

lemma UpdateNodes_body_edges:
  assumes inv: "edges_ok (graph_ref G)"
    and r: "UpdateNodes_body mm mid (G, upd) = Inr (G', upd')"
  shows "edges_ok (graph_ref G')"
proof (cases "map_of (graph_ref G) mid")
  case None
  with r inv show ?thesis by (simp add: UpdateNodes_body_absent)
next
  case (Some node)
  note P = UpdateNodes_body_present[OF r Some]
  note R = UpdateNodes_body_present_rev[OF r Some]
  let ?g = "graph_ref G" and ?g' = "graph_ref G'"
  let ?U = "fst ` set (upstreams node)"
  have recip: "u \<in> fst ` set (upstreams n') \<longleftrightarrow> k \<in> set (downstreams un')"
    if k: "map_of ?g' k = Some n'" and u: "map_of ?g' u = Some un'" for k n' u un'
  proof -
    from R[OF k] obtain n0 where n0: "map_of ?g k = Some n0"
      and un: "upstreams n' = (if k = mid then [] else upstreams n0)"
      by auto
    from R[OF u] obtain un0 where un0: "map_of ?g u = Some un0"
      and dn: "downstreams un' = (if u \<in> ?U then removeAll mid (downstreams un0) else downstreams un0)"
      by auto
    note E = edges_okD(1)[OF inv n0 un0]
    show ?thesis
    proof (cases "k = mid")
      case True
      then have "n0 = node" using n0 Some by simp
      with E True have "u \<in> ?U \<longleftrightarrow> mid \<in> set (downstreams un0)" by simp
      then have "mid \<notin> set (downstreams un')" using dn by auto
      with True un show ?thesis by simp
    next
      case False
      then have "k \<in> set (downstreams un') \<longleftrightarrow> k \<in> set (downstreams un0)"
        using dn by simp
      with False un E show ?thesis by simp
    qed
  qed
  have closed: "map_of ?g' x \<noteq> None"
    if k: "map_of ?g' k = Some n'"
      and x: "x \<in> fst ` set (upstreams n') \<or> x \<in> set (downstreams n')" for k n' x
  proof -
    from R[OF k] obtain n0 where n0: "map_of ?g k = Some n0"
      and un: "upstreams n' = (if k = mid then [] else upstreams n0)"
      and dn: "downstreams n' = (if k \<in> ?U then removeAll mid (downstreams n0) else downstreams n0)"
      by auto
    have "x \<in> fst ` set (upstreams n0) \<or> x \<in> set (downstreams n0)"
      using x un dn by (auto split: if_splits)
    then have "map_of ?g x \<noteq> None" using edges_okD(2,3)[OF inv n0] by auto
    then have "x \<in> set (map fst ?g)" by (auto dest: map_of_Some_key)
    then have "x \<in> set (map fst ?g')" using P(3) by simp
    then show ?thesis by (metis map_of_eq_None_iff set_map)
  qed
  show ?thesis unfolding edges_ok_def using recip closed by blast
qed

lemma edges_ok_emplace:
  assumes inv: "edges_ok g"
  shows "edges_ok (emplace_node mid (new_DependencyNode mid info) g)"
proof (cases "map_of g mid")
  case (Some old)
  then show ?thesis using inv by (simp add: emplace_node_def)
next
  case None
  let ?g' = "emplace_node mid (new_DependencyNode mid info) g"
  have look: "map_of ?g' k = (if k = mid then Some (new_DependencyNode mid info) else map_of g k)" for k
    using None by (simp add: map_of_emplace_node)
  have new [simp]: "upstreams (new_DependencyNode mid info) = []"
    "downstreams (new_DependencyNode mid info) = []"
    by (simp_all add: new_DependencyNode_def)
  have recip: "u \<in> fst ` set (upstreams n) \<longleftrightarrow> k \<in> set (downstreams un)"
    if k: "map_of ?g' k = Some n" and u: "map_of ?g' u = Some un" for k n u un
  proof (cases "k = mid")
    case True
    with k look have n: "upstreams n = []" by auto
    show ?thesis
    proof (cases "u = mid")
      case True
      with u look have "downstreams un = []" by auto
      with n show ?thesis by simp
    next
      case False
      with u look have "map_of g u = Some un" by simp
      with edges_okD(3)[OF inv this, of mid] None have "mid \<notin> set (downstreams un)" by auto
      with True n show ?thesis by simp
    qed
  next
    case False
    with k look have k0: "map_of g k = Some n" by simp
    show ?thesis
    proof (cases "u = mid")
      case True
      with u look have "downstreams un = []" by auto
      moreover have "mid \<notin> fst ` set (upstreams n)"
        using edges_okD(2)[OF inv k0, of mid] None by auto
      ultimately show ?thesis using True by simp
    next
      case False
      with u look have "map_of g u = Some un" by simp
      with edges_okD(1)[OF inv k0] show ?thesis by simp
    qed
  qed
  have closed: "map_of ?g' x \<noteq> None"
    if k: "map_of ?g' k = Some n"
      and x: "x \<in> fst ` set (upstreams n) \<or> x \<in> set (downstreams n)" for k n x
  proof (cases "k = mid")
    case True
    with k look have "upstreams n = []" "downstreams n = []" by auto
    with x show ?thesis by simp
  next
    case False
    with k look have "map_of g k = Some n" by simp
    with edges_okD(2,3)[OF inv this] x have "map_of g x \<noteq> None" by auto
    then show ?thesis by (simp add: look)
  qed
  show ?thesis unfolding edges_ok_def using recip closed by blast
qed

lemma edges_ok_unchecked:
  assumes inv: "edges_ok g" and s: "store_unchecked g g'"
  shows "edges_ok g'"
proof -
  have bk: "\<exists>n. map_of g k = Some n \<and> upstreams n' = upstreams n \<and> downstreams n' = downstreams n"
    if "map_of g' k = Some n'" for k n'
    using store_unchecked_Some_rev[OF s that] by (auto dest: unchecked_from_fields)
  have recip: "u \<in> fst ` set (upstreams n') \<longleftrightarrow> k \<in> set (downstreams un')"
    if k: "map_of g' k = Some n'" and u: "map_of g' u = Some un'" for k n' u un'
  proof -
    from bk[OF k] obtain n where n: "map_of g k = Some n" "upstreams n' = upstreams n" by auto
    from bk[OF u] obtain un where un: "map_of g u = Some un" "downstreams un' = downstreams un"
      by auto
    from edges_okD(1)[OF inv n(1) un(1)] n(2) un(2) show ?thesis by simp
  qed
  have closed: "map_of g' x \<noteq> None"
    if k: "map_of g' k = Some n'"
      and x: "x \<in> fst ` set (upstreams n') \<or> x \<in> set (downstreams n')" for k n' x
  proof -
    from bk[OF k] obtain n where n: "map_of g k = Some n" "upstreams n' = upstreams n"
      "downstreams n' = downstreams n" by auto
    with edges_okD(2,3)[OF inv n(1)] x have "map_of g x \<noteq> None" by auto
    then show ?thesis using store_unchecked_None[OF s, of x] by simp
  qed
  show ?thesis unfolding edges_ok_def using recip closed by blast
qed

lemma AddNodes_body_edges:
  assumes inv: "edges_ok (graph_ref G)"
    and r: "AddNodes_body mm mid (G, aff) = Inr (G', aff')"
  shows "edges_ok (graph_ref G')"
proof -
  from AddNodes_body_frame[OF r] obtain info where
    "store_unchecked (emplace_node mid (new_DependencyNode mid info) (graph_ref G)) (graph_ref G')"
    by auto
  from edges_ok_unchecked[OF edges_ok_emplace[OF inv] this] show ?thesis .
qed

lemma RemoveNodes_body_graph:
  "RemoveNodes_body c mid (G, nx, a, r) = Inr (G', nx', a', r') \<Longrightarrow>
   \<exists>ups downs. RemoveNode mid G = Inr (G', ups, downs)"
  by (auto simp: RemoveNodes_body_def split: sum.splits)

lemma RemoveNodes_edges:
  assumes inv: "edges_ok (graph_ref G)"
    and r: "RemoveNodes ids c G = Inr (G', aff, rem)"
  shows "edges_ok (graph_ref G')"
proof (rule RemoveNodes_loop_rule[where I = "\<lambda>cur G a r. edges_ok (graph_ref G)"
        and c = c and cur = ids and G = G and a = "[]" and r = "[]"])
  show "RemoveNodes_loop c ids G [] [] = Inr (G', aff, rem)"
    using r by (simp add: RemoveNodes_def)
  show "edges_ok (graph_ref G)" by (fact inv)
next
  fix cur G a r G1 nx a1 r1
  assume i: "edges_ok (graph_ref (G :: 'a DependencyGraph))"
    and w: "RemoveNodes_wave c cur (G, [], a, r) = Inr (G1, nx, a1, r1)"
  show "edges_ok (graph_ref G1)"
  proof (rule RemoveNodes_wave_rule[where J = "\<lambda>cur G nx a r. edges_ok (graph_ref G)", OF w i])
    fix mid rest G nx a r G1 nx1 a1 r1
    assume "edges_ok (graph_ref (G :: 'a DependencyGraph))"
      and "RemoveNodes_body c mid (G, nx, a, r) = Inr (G1, nx1, a1, r1)"
    then show "edges_ok (graph_ref G1)"
      using RemoveNode_edges RemoveNodes_body_graph by blast
  qed
qed

lemma UpdateNodes_edges:
  assumes inv: "edges_ok (graph_ref G)"
    and r: "UpdateNodes ids mm G = Inr (G', upd)"
  shows "edges_ok (graph_ref G')"
proof (rule UpdateNodes_loop_rule[where J = "\<lambda>ids G upd. edges_ok (graph_ref G)"
        and mm = mm and ids = ids and G = G and upd = "[]"])
  show "UpdateNodes_loop mm ids (G, []) = Inr (G', upd)"
    using r by (simp add: UpdateNodes_def)
  show "edges_ok (graph_ref G)" by (fact inv)
next
  fix mid rest G upd G1 upd1
  assume "edges_ok (graph_ref (G :: 'a DependencyGraph))"
    and "UpdateNodes_body mm mid (G, upd) = Inr (G1, upd1)"
  then show "edges_ok (graph_ref G1)" by (rule UpdateNodes_body_edges)
qed

lemma AddNodes_edges:
  assumes inv: "edges_ok (graph_ref G)"
    and r: "AddNodes ids mm G = Inr (G', aff)"
  shows "edges_ok (graph_ref G')"
proof (rule AddNodes_loop_rule[where J = "\<lambda>ids G aff. edges_ok (graph_ref G)"
        and mm = mm and ids = ids and G = G and aff = "[]"])
  show "AddNodes_loop mm ids (G, []) = Inr (G', aff)"
    using r by (simp add: AddNodes_def)
  show "edges_ok (graph_ref G)" by (fact inv)
next
  fix mid rest G aff G1 aff1
  assume "edges_ok (graph_ref (G :: 'a DependencyGraph))"
    and "AddNodes_body mm mid (G, aff) = Inr (G1, aff1)"
  then show "edges_ok (graph_ref G1)" by (rule AddNodes_body_edges)
qed

lemma mutated_edges_ok: "mutated G0 G \<Longrightarrow> edges_ok (graph_ref G0) \<Longrightarrow> edges_ok (graph_ref G)"
  by (induction rule: mutated.induct)
    (auto intro: AddNodes_edges UpdateNodes_edges RemoveNodes_edges)


subsection \<open>Waiters\<close>

lemma waiting_no_key: "nm \<notin> set (map fst (missing_nodes_ref G)) \<Longrightarrow> waiting G nm = []"
  by (simp add: waiting_def map_of_eq_None_iff[THEN iffD2] split: option.splits)

lemma waiter_reciprocity_iff:
  "waiter_reciprocity G \<longleftrightarrow>
     (\<forall>k n nm. map_of (graph_ref G) k = Some n \<longrightarrow>
        (nm \<in> set (missing_upstreams n) \<longleftrightarrow> k \<in> set (waiting G nm)))"
proof
  assume a: "waiter_reciprocity G"
  show "\<forall>k n nm. map_of (graph_ref G) k = Some n \<longrightarrow>
        (nm \<in> set (missing_upstreams n) \<longleftrightarrow> k \<in> set (waiting G nm))"
  proof (intro allI impI)
    fix k n nm
    assume k: "map_of (graph_ref G) k = Some n"
    from a map_of_Some_key[OF k] have
      "case map_of (graph_ref G) k of None \<Rightarrow> True
       | Some n \<Rightarrow> (\<forall>nm \<in> set (missing_upstreams n) \<union> set (map fst (missing_nodes_ref G)).
               nm \<in> set (missing_upstreams n) \<longleftrightarrow> k \<in> set (waiting G nm))"
      unfolding waiter_reciprocity_def by fast
    with k have b: "\<forall>nm \<in> set (missing_upstreams n) \<union> set (map fst (missing_nodes_ref G)).
               nm \<in> set (missing_upstreams n) \<longleftrightarrow> k \<in> set (waiting G nm)" by simp
    show "nm \<in> set (missing_upstreams n) \<longleftrightarrow> k \<in> set (waiting G nm)"
    proof (cases "nm \<in> set (missing_upstreams n) \<union> set (map fst (missing_nodes_ref G))")
      case True
      with b show ?thesis by fast
    next
      case False
      then have "waiting G nm = []" using waiting_no_key[of nm G] by simp
      with False show ?thesis by simp
    qed
  qed
next
  assume "\<forall>k n nm. map_of (graph_ref G) k = Some n \<longrightarrow>
        (nm \<in> set (missing_upstreams n) \<longleftrightarrow> k \<in> set (waiting G nm))"
  then show "waiter_reciprocity G"
    unfolding waiter_reciprocity_def by (simp split: option.splits)
qed

lemma waiters_closed_iff:
  "waiters_closed G \<longleftrightarrow>
     (\<forall>nm k. k \<in> set (waiting G nm) \<longrightarrow> map_of (graph_ref G) k \<noteq> None)"
proof
  assume a: "waiters_closed G"
  show "\<forall>nm k. k \<in> set (waiting G nm) \<longrightarrow> map_of (graph_ref G) k \<noteq> None"
  proof (intro allI impI)
    fix nm k
    assume k: "k \<in> set (waiting G nm)"
    have "nm \<in> set (map fst (missing_nodes_ref G))"
    proof (rule ccontr)
      assume "nm \<notin> set (map fst (missing_nodes_ref G))"
      from waiting_no_key[OF this] k show False by simp
    qed
    with a k show "map_of (graph_ref G) k \<noteq> None"
      unfolding waiters_closed_def by fast
  qed
next
  assume "\<forall>nm k. k \<in> set (waiting G nm) \<longrightarrow> map_of (graph_ref G) k \<noteq> None"
  then show "waiters_closed G" unfolding waiters_closed_def by simp
qed

lemma waiting_after_erase:
  assumes "\<And>nm. map_of (missing_nodes_ref G') nm =
        map_option (\<lambda>ws. if nm \<in> set names then removeAll mid ws else ws)
          (map_of (missing_nodes_ref G) nm)"
  shows "set (waiting G' nm) =
     (if nm \<in> set names then set (waiting G nm) - {mid} else set (waiting G nm))"
  by (cases "map_of (missing_nodes_ref G) nm") (simp_all add: waiting_def assms)

lemma waiting_cong:
  "missing_nodes_ref G' = missing_nodes_ref G \<Longrightarrow> waiting G' nm = waiting G nm"
  by (simp add: waiting_def)

lemma waiter_reciprocityD:
  "waiter_reciprocity G \<Longrightarrow> map_of (graph_ref G) k = Some n \<Longrightarrow>
   nm \<in> set (missing_upstreams n) \<longleftrightarrow> k \<in> set (waiting G nm)"
  unfolding waiter_reciprocity_iff by simp

lemma waiters_closedD:
  "waiters_closed G \<Longrightarrow> k \<in> set (waiting G nm) \<Longrightarrow> map_of (graph_ref G) k \<noteq> None"
  unfolding waiters_closed_iff by simp

lemma waiters_namedD:
  "waiters_named G \<Longrightarrow> map_of (graph_ref G) k = Some n \<Longrightarrow> k \<in> set (waiting G nm) \<Longrightarrow>
   nm \<in> set (missing_upstreams n)"
  unfolding waiters_named_def by blast

lemma waiter_reciprocity_named: "waiter_reciprocity G \<Longrightarrow> waiters_named G"
  unfolding waiters_named_def waiter_reciprocity_iff by simp

lemma RemoveNode_waiters:
  assumes rc: "waiter_reciprocity G" and cl: "waiters_closed G"
    and r: "RemoveNode mid G = Inr (G', ups, downs)"
  shows "waiter_reciprocity G' \<and> waiters_closed G'"
proof (cases "map_of (graph_ref G) mid")
  case None
  with r rc cl show ?thesis by (simp add: RemoveNode_absent)
next
  case (Some node)
  note P = RemoveNode_present[OF r Some]
  note R = RemoveNode_present_rev[OF r Some]
  have W: "set (waiting G' nm) =
     (if nm \<in> set (missing_upstreams node) then set (waiting G nm) - {mid}
      else set (waiting G nm))" for nm
    by (rule waiting_after_erase) (rule P(11))
  have a: "nm \<in> set (missing_upstreams n') \<longleftrightarrow> k \<in> set (waiting G' nm)"
    if k: "map_of (graph_ref G') k = Some n'" for k n' nm
  proof -
    from R[OF k] obtain n0 where km: "k \<noteq> mid" and n0: "map_of (graph_ref G) k = Some n0"
      and s: "same_static n0 n'" by auto
    have "k \<in> set (waiting G' nm) \<longleftrightarrow> k \<in> set (waiting G nm)" using km W by simp
    with waiter_reciprocityD[OF rc n0, of nm] s show ?thesis by (simp add: same_static_def)
  qed
  have b: "map_of (graph_ref G') k \<noteq> None" if k: "k \<in> set (waiting G' nm)" for k nm
  proof -
    from k W have k0: "k \<in> set (waiting G nm)" by (auto split: if_splits)
    have km: "k \<noteq> mid"
    proof
      assume "k = mid"
      with k0 waiter_reciprocityD[OF rc Some, of nm] have "nm \<in> set (missing_upstreams node)"
        by simp
      with k W \<open>k = mid\<close> show False by simp
    qed
    from waiters_closedD[OF cl k0] obtain n0 where "map_of (graph_ref G) k = Some n0" by auto
    from P(8)[OF km this] show ?thesis by auto
  qed
  show ?thesis unfolding waiter_reciprocity_iff waiters_closed_iff using a b by blast
qed

lemma AddNodes_body_waiters:
  assumes rc: "waiter_reciprocity G" and cl: "waiters_closed G"
    and r: "AddNodes_body mm mid (G, aff) = Inr (G', aff')"
  shows "waiter_reciprocity G' \<and> waiters_closed G'"
proof -
  from AddNodes_body_frame[OF r] obtain info where
    w: "missing_nodes_ref G' = missing_nodes_ref G" and
    s: "store_unchecked (emplace_node mid (new_DependencyNode mid info) (graph_ref G)) (graph_ref G')"
    by auto
  let ?g1 = "emplace_node mid (new_DependencyNode mid info) (graph_ref G)"
  have W: "waiting G' nm = waiting G nm" for nm using w by (rule waiting_cong)
  have a: "nm \<in> set (missing_upstreams n') \<longleftrightarrow> k \<in> set (waiting G' nm)"
    if k: "map_of (graph_ref G') k = Some n'" for k n' nm
  proof -
    from store_unchecked_Some_rev[OF s k] obtain n1 where
      n1: "map_of ?g1 k = Some n1" and m: "missing_upstreams n' = missing_upstreams n1"
      by (auto dest: unchecked_from_fields simp: same_static_def)
    show ?thesis
    proof (cases "k = mid \<and> map_of (graph_ref G) mid = None")
      case True
      with n1 have "missing_upstreams n1 = []"
        by (auto simp: map_of_emplace_node new_DependencyNode_def)
      moreover have "mid \<notin> set (waiting G nm)" using waiters_closedD[OF cl, of mid nm] True by auto
      ultimately show ?thesis using m W True by simp
    next
      case False
      with n1 have "map_of (graph_ref G) k = Some n1" by (auto simp: map_of_emplace_node)
      from waiter_reciprocityD[OF rc this, of nm] m W show ?thesis by simp
    qed
  qed
  have b: "map_of (graph_ref G') k \<noteq> None" if k: "k \<in> set (waiting G' nm)" for k nm
  proof -
    from k W have "map_of (graph_ref G) k \<noteq> None" using waiters_closedD[OF cl] by simp
    then have "map_of ?g1 k \<noteq> None" by (auto simp: map_of_emplace_node)
    then show ?thesis using store_unchecked_None[OF s, of k] by simp
  qed
  show ?thesis unfolding waiter_reciprocity_iff waiters_closed_iff using a b by blast
qed

lemma RemoveNodes_waiters:
  assumes rc: "waiter_reciprocity G" and cl: "waiters_closed G"
    and r: "RemoveNodes ids c G = Inr (G', aff, rem)"
  shows "waiter_reciprocity G' \<and> waiters_closed G'"
proof (rule RemoveNodes_loop_rule[where I = "\<lambda>cur G a r. waiter_reciprocity G \<and> waiters_closed G"
        and c = c and cur = ids and G = G and a = "[]" and r = "[]"])
  show "RemoveNodes_loop c ids G [] [] = Inr (G', aff, rem)"
    using r by (simp add: RemoveNodes_def)
  show "waiter_reciprocity G \<and> waiters_closed G" using rc cl by simp
next
  fix cur G a r G1 nx a1 r1
  assume i: "waiter_reciprocity (G :: 'a DependencyGraph) \<and> waiters_closed G"
    and w: "RemoveNodes_wave c cur (G, [], a, r) = Inr (G1, nx, a1, r1)"
  show "waiter_reciprocity G1 \<and> waiters_closed G1"
  proof (rule RemoveNodes_wave_rule[where
        J = "\<lambda>cur G nx a r. waiter_reciprocity G \<and> waiters_closed G", OF w i])
    fix mid rest G nx a r G1 nx1 a1 r1
    assume j: "waiter_reciprocity (G :: 'a DependencyGraph) \<and> waiters_closed G"
      and b: "RemoveNodes_body c mid (G, nx, a, r) = Inr (G1, nx1, a1, r1)"
    from RemoveNodes_body_graph[OF b] obtain ups downs where
      "RemoveNode mid G = Inr (G1, ups, downs)" by auto
    from RemoveNode_waiters[OF _ _ this] j show "waiter_reciprocity G1 \<and> waiters_closed G1"
      by simp
  qed
qed

lemma AddNodes_waiters:
  assumes rc: "waiter_reciprocity G" and cl: "waiters_closed G"
    and r: "AddNodes ids mm G = Inr (G', aff)"
  shows "waiter_reciprocity G' \<and> waiters_closed G'"
proof (rule AddNodes_loop_rule[where J = "\<lambda>ids G aff. waiter_reciprocity G \<and> waiters_closed G"
        and mm = mm and ids = ids and G = G and aff = "[]"])
  show "AddNodes_loop mm ids (G, []) = Inr (G', aff)"
    using r by (simp add: AddNodes_def)
  show "waiter_reciprocity G \<and> waiters_closed G" using rc cl by simp
next
  fix mid rest G aff G1 aff1
  assume j: "waiter_reciprocity (G :: 'a DependencyGraph) \<and> waiters_closed G"
    and b: "AddNodes_body mm mid (G, aff) = Inr (G1, aff1)"
  from AddNodes_body_waiters[OF _ _ b] j show "waiter_reciprocity G1 \<and> waiters_closed G1"
    by simp
qed

lemma UpdateNodes_body_waiters:
  assumes j: "update_waiters G upd"
    and r: "UpdateNodes_body mm mid (G, upd) = Inr (G', upd')"
  shows "update_waiters G' upd'"
proof (cases "map_of (graph_ref G) mid")
  case None
  with r j show ?thesis by (simp add: UpdateNodes_body_absent)
next
  case (Some node)
  note P = UpdateNodes_body_present[OF r Some]
  note R = UpdateNodes_body_present_rev[OF r Some]
  from j have nm: "waiters_named G" and cl: "waiters_closed G"
    and out: "\<And>k nm. k \<in> set upd \<Longrightarrow> k \<notin> set (waiting G nm)"
    and rest: "\<And>k n nm. map_of (graph_ref G) k = Some n \<Longrightarrow> k \<notin> set upd \<Longrightarrow>
        (nm \<in> set (missing_upstreams n) \<longleftrightarrow> k \<in> set (waiting G nm))"
    unfolding update_waiters_def by blast+
  have W: "set (waiting G' nm) =
     (if nm \<in> set (missing_upstreams node) then set (waiting G nm) - {mid}
      else set (waiting G nm))" for nm
    by (rule waiting_after_erase) (rule P(10))
  have sub: "k \<in> set (waiting G nm)" if "k \<in> set (waiting G' nm)" for k nm
    using that W by (auto split: if_splits)
  have midout: "mid \<notin> set (waiting G' nm)" for nm
  proof
    assume a: "mid \<in> set (waiting G' nm)"
    from waiters_namedD[OF nm Some sub[OF a]] a W show False by simp
  qed
  have a: "waiters_named G'"
    unfolding waiters_named_def
  proof (intro allI impI)
    fix k n' nm
    assume k: "map_of (graph_ref G') k = Some n'" and w: "k \<in> set (waiting G' nm)"
    from R[OF k] obtain n0 where n0: "map_of (graph_ref G) k = Some n0"
      and m: "missing_upstreams n' = missing_upstreams n0" by auto
    from waiters_namedD[OF nm n0 sub[OF w]] m show "nm \<in> set (missing_upstreams n')" by simp
  qed
  have b: "waiters_closed G'"
    unfolding waiters_closed_iff
  proof (intro allI impI)
    fix nm k
    assume "k \<in> set (waiting G' nm)"
    from waiters_closedD[OF cl sub[OF this]] have "k \<in> set (map fst (graph_ref G))"
      by (auto dest: map_of_Some_key)
    then have "k \<in> set (map fst (graph_ref G'))" using P(3) by simp
    then show "map_of (graph_ref G') k \<noteq> None" by (metis map_of_eq_None_iff set_map)
  qed
  have c: "k \<notin> set (waiting G' nm)" if "k \<in> set upd'" for k nm
  proof (cases "k = mid")
    case True
    then show ?thesis using midout by simp
  next
    case False
    with that P(1) have "k \<in> set upd" by simp
    from out[OF this] sub show ?thesis by blast
  qed
  have d: "nm \<in> set (missing_upstreams n') \<longleftrightarrow> k \<in> set (waiting G' nm)"
    if k: "map_of (graph_ref G') k = Some n'" and u: "k \<notin> set upd'" for k n' nm
  proof -
    from u P(1) have km: "k \<noteq> mid" and ku: "k \<notin> set upd" by auto
    from R[OF k] obtain n0 where n0: "map_of (graph_ref G) k = Some n0"
      and m: "missing_upstreams n' = missing_upstreams n0" by auto
    have "k \<in> set (waiting G' nm) \<longleftrightarrow> k \<in> set (waiting G nm)" using km W by simp
    with rest[OF n0 ku, of nm] m show ?thesis by simp
  qed
  show ?thesis unfolding update_waiters_def using a b c d by blast
qed

lemma UpdateNodes_waiters:
  assumes rc: "waiter_reciprocity G" and cl: "waiters_closed G"
    and r: "UpdateNodes ids mm G = Inr (G', upd)"
  shows "update_waiters G' upd"
proof (rule UpdateNodes_loop_rule[where J = "\<lambda>ids G upd. update_waiters G upd"
        and mm = mm and ids = ids and G = G and upd = "[]"])
  show "UpdateNodes_loop mm ids (G, []) = Inr (G', upd)"
    using r by (simp add: UpdateNodes_def)
  show "update_waiters G []"
    unfolding update_waiters_def
    using waiter_reciprocity_named[OF rc] cl waiter_reciprocityD[OF rc] by simp
next
  fix mid rest G upd G1 upd1
  assume "update_waiters (G :: 'a DependencyGraph) upd"
    and "UpdateNodes_body mm mid (G, upd) = Inr (G1, upd1)"
  then show "update_waiters G1 upd1" by (rule UpdateNodes_body_waiters)
qed

lemma update_waiters_reciprocity:
  assumes "update_waiters G upd"
  shows "waiter_reciprocity G \<longleftrightarrow>
     (\<forall>k \<in> set upd. \<forall>n. map_of (graph_ref G) k = Some n \<longrightarrow> missing_upstreams n = [])"
proof
  assume rc: "waiter_reciprocity G"
  show "\<forall>k \<in> set upd. \<forall>n. map_of (graph_ref G) k = Some n \<longrightarrow> missing_upstreams n = []"
  proof (intro ballI allI impI)
    fix k n
    assume k: "k \<in> set upd" and n: "map_of (graph_ref G) k = Some n"
    have "nm \<notin> set (missing_upstreams n)" for nm
      using waiter_reciprocityD[OF rc n, of nm] assms k unfolding update_waiters_def by blast
    then show "missing_upstreams n = []" by (cases "missing_upstreams n") auto
  qed
next
  assume e: "\<forall>k \<in> set upd. \<forall>n. map_of (graph_ref G) k = Some n \<longrightarrow> missing_upstreams n = []"
  show "waiter_reciprocity G"
    unfolding waiter_reciprocity_iff
  proof (intro allI impI)
    fix k n nm
    assume n: "map_of (graph_ref G) k = Some n"
    show "nm \<in> set (missing_upstreams n) \<longleftrightarrow> k \<in> set (waiting G nm)"
    proof (cases "k \<in> set upd")
      case True
      with e n have "missing_upstreams n = []" by blast
      moreover have "k \<notin> set (waiting G nm)"
        using assms True unfolding update_waiters_def by blast
      ultimately show ?thesis by simp
    next
      case False
      with assms n show ?thesis unfolding update_waiters_def by blast
    qed
  qed
qed


subsection \<open>The name index and the updated node\<close>

lemma by_name_no_key: "nm \<notin> set (map fst (global_map_ref G)) \<Longrightarrow> by_name G nm = []"
  by (simp add: by_name_def map_of_eq_None_iff[THEN iffD2] split: option.splits)

lemma name_index_coverage_iff:
  "name_index_coverage G \<longleftrightarrow>
     (\<forall>k. map_of (graph_ref G) k \<noteq> None \<longleftrightarrow> k \<in> set (by_name G (name k)))"
proof
  assume a: "name_index_coverage G"
  show "\<forall>k. map_of (graph_ref G) k \<noteq> None \<longleftrightarrow> k \<in> set (by_name G (name k))"
  proof (intro allI iffI)
    fix k assume "map_of (graph_ref G) k \<noteq> None"
    then have "k \<in> set (map fst (graph_ref G))" by (auto dest: map_of_Some_key)
    with a show "k \<in> set (by_name G (name k))" unfolding name_index_coverage_def by fast
  next
    fix k assume k: "k \<in> set (by_name G (name k))"
    have "name k \<in> set (map fst (global_map_ref G))"
    proof (rule ccontr)
      assume "name k \<notin> set (map fst (global_map_ref G))"
      from by_name_no_key[OF this] k show False by simp
    qed
    with a k show "map_of (graph_ref G) k \<noteq> None" unfolding name_index_coverage_def by fast
  qed
next
  assume b: "\<forall>k. map_of (graph_ref G) k \<noteq> None \<longleftrightarrow> k \<in> set (by_name G (name k))"
  have "k \<in> set (by_name G (name k))" if "k \<in> set (map fst (graph_ref G))" for k
  proof -
    from that have "map_of (graph_ref G) k \<noteq> None" by (metis map_of_eq_None_iff set_map)
    with b show ?thesis by simp
  qed
  moreover have "map_of (graph_ref G) k \<noteq> None"
    if "k \<in> set (by_name G nm)" "name k = nm" for k nm
    using that b by auto
  ultimately show "name_index_coverage G" unfolding name_index_coverage_def by fast
qed

lemma UpdateNodes_body_updated:
  assumes r: "UpdateNodes_body mm mid0 (G, upd) = Inr (G', upd')"
    and k: "map_of (graph_ref G) k = Some n"
  shows "\<exists>n'. map_of (graph_ref G') k = Some n' \<and>
     missing_upstreams n' = missing_upstreams n \<and>
     fuzzy_matched_upstreams n' = fuzzy_matched_upstreams n \<and>
     (k = mid0 \<longrightarrow> (\<exists>info. mm k = Some info \<and> updated_node info n n')) \<and>
     (k \<noteq> mid0 \<longrightarrow> (\<forall>info. updated_node info n0 n \<longrightarrow> updated_node info n0 n'))"
proof (cases "map_of (graph_ref G) mid0")
  case None
  with r k show ?thesis by (auto simp: UpdateNodes_body_absent)
next
  case (Some node)
  note P = UpdateNodes_body_present[OF r Some]
  show ?thesis
  proof (cases "k = mid0")
    case True
    with k Some have "n = node" by simp
    with P(5) True show ?thesis by (auto simp: updated_node_def)
  next
    case False
    from P(7)[OF False k] obtain n' where n': "map_of (graph_ref G') k = Some n'"
      and s: "same_static n n'" and c: "check_rel n n'" and u: "upstreams n' = upstreams n"
      by auto
    have "updated_node info n0 n'" if "updated_node info n0 n" for info
      using that s c u unfolding updated_node_def same_static_def check_rel_def by auto
    with n' s False show ?thesis by (auto simp: same_static_def)
  qed
qed

lemma UpdateNodes_updated:
  assumes r: "UpdateNodes ids mm G = Inr (G', upd)"
    and k: "map_of (graph_ref G) k = Some n"
  shows "\<exists>n'. map_of (graph_ref G') k = Some n' \<and>
     missing_upstreams n' = missing_upstreams n \<and>
     fuzzy_matched_upstreams n' = fuzzy_matched_upstreams n \<and>
     (k \<in> set ids \<longrightarrow> (\<exists>info. mm k = Some info \<and> updated_node info n n'))"
proof -
  let ?J = "\<lambda>rest Gc (u :: ModelIdentifier list).
      \<exists>n'. map_of (graph_ref Gc) k = Some n' \<and>
        missing_upstreams n' = missing_upstreams n \<and>
        fuzzy_matched_upstreams n' = fuzzy_matched_upstreams n \<and>
        (k \<in> set ids \<longrightarrow> k \<in> set rest \<or> (\<exists>info. mm k = Some info \<and> updated_node info n n'))"
  have "?J [] G' upd"
  proof (rule UpdateNodes_loop_rule[where J = ?J and mm = mm and ids = ids and G = G and upd = "[]"])
    show "UpdateNodes_loop mm ids (G, []) = Inr (G', upd)"
      using r by (simp add: UpdateNodes_def)
    show "?J ids G []" using k by simp
  next
    fix mid rest Gc u G1 u1
    assume j: "?J (mid # rest) Gc u"
      and b: "UpdateNodes_body mm mid (Gc, u) = Inr (G1, u1)"
    from j obtain nc where nc: "map_of (graph_ref Gc) k = Some nc"
      and m: "missing_upstreams nc = missing_upstreams n"
      and f: "fuzzy_matched_upstreams nc = fuzzy_matched_upstreams n"
      and d: "k \<in> set ids \<longrightarrow> k \<in> set (mid # rest) \<or>
          (\<exists>info. mm k = Some info \<and> updated_node info n nc)"
      by blast
    from UpdateNodes_body_updated[OF b nc, of n] obtain n1 where
      n1: "map_of (graph_ref G1) k = Some n1"
      and m1: "missing_upstreams n1 = missing_upstreams nc"
      and f1: "fuzzy_matched_upstreams n1 = fuzzy_matched_upstreams nc"
      and e1: "k = mid \<longrightarrow> (\<exists>info. mm k = Some info \<and> updated_node info nc n1)"
      and e2: "k \<noteq> mid \<longrightarrow> (\<forall>info. updated_node info n nc \<longrightarrow> updated_node info n n1)"
      by blast
    have "k \<in> set rest \<or> (\<exists>info. mm k = Some info \<and> updated_node info n n1)" if "k \<in> set ids"
    proof (cases "k = mid")
      case True
      with e1 show ?thesis by (auto simp: updated_node_def)
    next
      case False
      with d that e2 show ?thesis by auto
    qed
    with n1 m1 f1 m f show "?J rest G1 u1" by simp
  qed
  then show ?thesis by simp
qed


lemma by_name_cong: "global_map_ref G' = global_map_ref G \<Longrightarrow> by_name G' nm = by_name G nm"
  by (simp add: by_name_def)

lemma AddNodes_body_index:
  assumes r: "AddNodes_body mm mid (G, aff) = Inr (G', aff')"
  shows "global_map_ref G' = global_map_ref G"
    and "map_of (graph_ref G') k \<noteq> None \<longleftrightarrow> k = mid \<or> map_of (graph_ref G) k \<noteq> None"
proof -
  from AddNodes_body_frame[OF r] obtain info where
    g: "global_map_ref G' = global_map_ref G" and
    s: "store_unchecked (emplace_node mid (new_DependencyNode mid info) (graph_ref G)) (graph_ref G')"
    by auto
  show "global_map_ref G' = global_map_ref G" by (fact g)
  show "map_of (graph_ref G') k \<noteq> None \<longleftrightarrow> k = mid \<or> map_of (graph_ref G) k \<noteq> None"
    using store_unchecked_None[OF s, of k] by (auto simp: map_of_emplace_node)
qed

lemma AddNodes_index:
  assumes r: "AddNodes ids mm G = Inr (G', aff)"
  shows "global_map_ref G' = global_map_ref G \<and>
     (\<forall>k. map_of (graph_ref G') k \<noteq> None \<longleftrightarrow> k \<in> set ids \<or> map_of (graph_ref G) k \<noteq> None)"
proof -
  let ?J = "\<lambda>rest Gc (a :: ModelIdentifier list).
     \<exists>P. set ids = P \<union> set rest \<and> global_map_ref Gc = global_map_ref G \<and>
       (\<forall>k. map_of (graph_ref Gc) k \<noteq> None \<longleftrightarrow> k \<in> P \<or> map_of (graph_ref G) k \<noteq> None)"
  have "?J [] G' aff"
  proof (rule AddNodes_loop_rule[where mm = mm and ids = ids and G = G and aff = "[]" and J = ?J])
    show "AddNodes_loop mm ids (G, []) = Inr (G', aff)"
      using r by (simp add: AddNodes_def)
    show "?J ids G []" by (rule exI[of _ "{}"]) simp
  next
    fix mid rest Gc a G1 a1
    assume j: "?J (mid # rest) Gc a"
      and b: "AddNodes_body mm mid (Gc, a) = Inr (G1, a1)"
    from j obtain P where P: "set ids = P \<union> set (mid # rest)"
      and g: "global_map_ref Gc = global_map_ref G"
      and d: "\<And>k. map_of (graph_ref Gc) k \<noteq> None \<longleftrightarrow> k \<in> P \<or> map_of (graph_ref G) k \<noteq> None"
      by blast
    note A = AddNodes_body_index[OF b]
    have "set ids = insert mid P \<union> set rest" using P by auto
    moreover have "global_map_ref G1 = global_map_ref G" using A(1) g by simp
    moreover have "map_of (graph_ref G1) k \<noteq> None \<longleftrightarrow>
        k \<in> insert mid P \<or> map_of (graph_ref G) k \<noteq> None" for k
      using A(2)[of k] d[of k] by auto
    ultimately show "?J rest G1 a1" by blast
  qed
  then show ?thesis by auto
qed

lemma RemoveNode_index:
  assumes r: "RemoveNode mid G = Inr (G', ups, downs)"
  shows "global_map_ref G' = global_map_ref G"
    and "map_of (graph_ref G') k \<noteq> None \<longleftrightarrow> map_of (graph_ref G) k \<noteq> None \<and> k \<noteq> mid"
proof -
  show "global_map_ref G' = global_map_ref G"
  proof (cases "map_of (graph_ref G) mid")
    case None
    with r show ?thesis by (simp add: RemoveNode_absent)
  next
    case (Some node)
    from RemoveNode_present(2)[OF r Some] show ?thesis .
  qed
  show "map_of (graph_ref G') k \<noteq> None \<longleftrightarrow> map_of (graph_ref G) k \<noteq> None \<and> k \<noteq> mid"
  proof (cases "map_of (graph_ref G) mid")
    case None
    with r show ?thesis by (auto simp: RemoveNode_absent)
  next
    case (Some node)
    note P = RemoveNode_present[OF r Some]
    show ?thesis
    proof (cases "k = mid")
      case True
      with P(4) show ?thesis by simp
    next
      case False
      show ?thesis
      proof (cases "map_of (graph_ref G) k")
        case None
        with P(7)[of k] False show ?thesis by simp
      next
        case (Some n0)
        with P(8)[OF False Some] False show ?thesis by auto
      qed
    qed
  qed
qed

lemma RemoveNodes_index:
  assumes r: "RemoveNodes ids c G = Inr (G', aff, rem)"
  shows "global_map_ref G' = global_map_ref G \<and>
     (\<forall>k. map_of (graph_ref G') k \<noteq> None \<longleftrightarrow> map_of (graph_ref G) k \<noteq> None \<and> k \<notin> set rem)"
proof -
  let ?I = "\<lambda>Gc (rc :: ModelIdentifier list). global_map_ref Gc = global_map_ref G \<and>
     (\<forall>k. map_of (graph_ref Gc) k \<noteq> None \<longleftrightarrow> map_of (graph_ref G) k \<noteq> None \<and> k \<notin> set rc)"
  show ?thesis
  proof (rule RemoveNodes_loop_rule[where I = "\<lambda>cur Gc a rc. ?I Gc rc"
        and c = c and cur = ids and G = G and a = "[]" and r = "[]"])
    show "RemoveNodes_loop c ids G [] [] = Inr (G', aff, rem)"
      using r by (simp add: RemoveNodes_def)
    show "?I G []" by simp
  next
    fix cur Gc a rc G1 nx a1 r1
    assume i: "?I Gc rc"
      and w: "RemoveNodes_wave c cur (Gc, [], a, rc) = Inr (G1, nx, a1, r1)"
    show "?I G1 r1"
    proof (rule RemoveNodes_wave_rule[where J = "\<lambda>cur Gc nx a rc. ?I Gc rc", OF w i])
      fix mid rest Gc nx a rc G1 nx1 a1 r1
      assume j: "?I Gc rc"
        and b: "RemoveNodes_body c mid (Gc, nx, a, rc) = Inr (G1, nx1, a1, r1)"
      from RemoveNodes_body_graph[OF b] obtain ups downs where
        rn: "RemoveNode mid Gc = Inr (G1, ups, downs)" by auto
      note A = RemoveNode_index[OF rn]
      have r1: "r1 = List.insert mid rc" using RemoveNodes_body_sets(1)[OF b] .
      have "map_of (graph_ref G1) k \<noteq> None \<longleftrightarrow>
          map_of (graph_ref G) k \<noteq> None \<and> k \<notin> set r1" for k
        using A(2)[of k] j r1 by auto
      with A(1) j show "?I G1 r1" by simp
    qed
  qed
qed

lemma UpdateNodes_body_index:
  assumes r: "UpdateNodes_body mm mid (G, upd) = Inr (G', upd')"
  shows "global_map_ref G' = global_map_ref G \<and> map fst (graph_ref G') = map fst (graph_ref G)"
proof (cases "map_of (graph_ref G) mid")
  case None
  with r show ?thesis by (simp add: UpdateNodes_body_absent)
next
  case (Some node)
  from UpdateNodes_body_present(2,3)[OF r Some] show ?thesis by simp
qed

lemma UpdateNodes_index:
  assumes r: "UpdateNodes ids mm G = Inr (G', upd)"
  shows "global_map_ref G' = global_map_ref G \<and> map fst (graph_ref G') = map fst (graph_ref G)"
proof (rule UpdateNodes_loop_rule[where mm = mm and ids = ids and G = G and upd = "[]" and
      J = "\<lambda>rest Gc u. global_map_ref Gc = global_map_ref G \<and>
             map fst (graph_ref Gc) = map fst (graph_ref G)"])
  show "UpdateNodes_loop mm ids (G, []) = Inr (G', upd)"
    using r by (simp add: UpdateNodes_def)
  show "global_map_ref G = global_map_ref G \<and> map fst (graph_ref G) = map fst (graph_ref G)"
    by simp
next
  fix mid rest Gc u G1 u1
  assume j: "global_map_ref Gc = global_map_ref G \<and>
             map fst (graph_ref Gc) = map fst (graph_ref G)"
    and b: "UpdateNodes_body mm mid (Gc :: 'a DependencyGraph, u) = Inr (G1, u1)"
  from UpdateNodes_body_index[OF b] j
  show "global_map_ref G1 = global_map_ref G \<and> map fst (graph_ref G1) = map fst (graph_ref G)"
    by simp
qed

lemma coverage_same_index:
  assumes c: "name_index_coverage G" and g: "global_map_ref G' = global_map_ref G"
  shows "name_index_coverage G' \<longleftrightarrow>
     (\<forall>k. map_of (graph_ref G') k \<noteq> None \<longleftrightarrow> map_of (graph_ref G) k \<noteq> None)"
  using c by_name_cong[OF g] unfolding name_index_coverage_iff by simp


subsection \<open>Cascading removal\<close>

lemma ids_consistent_iff:
  "ids_consistent G \<longleftrightarrow> (\<forall>k n. map_of (graph_ref G) k = Some n \<longrightarrow> model_id n = k)"
proof
  assume a: "ids_consistent G"
  show "\<forall>k n. map_of (graph_ref G) k = Some n \<longrightarrow> model_id n = k"
  proof (intro allI impI)
    fix k n assume k: "map_of (graph_ref G) k = Some n"
    from a map_of_Some_key[OF k] have
      "case map_of (graph_ref G) k of None \<Rightarrow> True | Some n \<Rightarrow> model_id n = k"
      unfolding ids_consistent_def by fast
    with k show "model_id n = k" by simp
  qed
next
  assume "\<forall>k n. map_of (graph_ref G) k = Some n \<longrightarrow> model_id n = k"
  then show "ids_consistent G" unfolding ids_consistent_def by (simp split: option.splits)
qed

lemma RemoveNodes_cascade_set:
  "x \<in> set (RemoveNodes_cascade ups G nx) \<longleftrightarrow> x \<in> set nx \<or> (x \<in> set ups \<and> unreferenced G x)"
proof (induction ups arbitrary: nx)
  case Nil
  then show ?case by simp
next
  case (Cons u rest)
  show ?case
  proof (cases "map_of (graph_ref G) u")
    case None
    then have "RemoveNodes_cascade (u # rest) G nx = RemoveNodes_cascade rest G nx"
      by (simp add: FindNode_exact)
    moreover have "\<not> unreferenced G u" using None by (simp add: unreferenced_def)
    ultimately show ?thesis using Cons.IH[of nx] by auto
  next
    case (Some un)
    show ?thesis
    proof (cases "downstreams un = [] \<and> \<not> explicitly_load un")
      case True
      with Some have "RemoveNodes_cascade (u # rest) G nx =
          RemoveNodes_cascade rest G (List.insert u nx)"
        by (simp add: FindNode_exact)
      moreover have "unreferenced G u" using Some True by (simp add: unreferenced_def)
      ultimately show ?thesis using Cons.IH[of "List.insert u nx"] by auto
    next
      case False
      with Some have "RemoveNodes_cascade (u # rest) G nx = RemoveNodes_cascade rest G nx"
        by (auto simp: FindNode_exact)
      moreover have "\<not> unreferenced G u" using Some False by (simp add: unreferenced_def)
      ultimately show ?thesis using Cons.IH[of nx] by auto
    qed
  qed
qed

lemma RemoveNode_ups_consistent:
  assumes r: "RemoveNode mid G = Inr (G', ups, downs)"
    and n: "map_of (graph_ref G) mid = Some node"
    and c: "ids_consistent G"
  shows "set ups = fst ` set (upstreams node)"
proof -
  note P = RemoveNode_present[OF r n]
  have "x \<in> set ups \<longleftrightarrow> x \<in> fst ` set (upstreams node)" for x
  proof
    assume "x \<in> set ups"
    with P(6)[of x] obtain v un where v: "v \<in> fst ` set (upstreams node)"
      and un: "map_of (graph_ref G) v = Some un" "model_id un = x" by blast
    from c un have "x = v" unfolding ids_consistent_iff by auto
    with v show "x \<in> fst ` set (upstreams node)" by simp
  next
    assume x: "x \<in> fst ` set (upstreams node)"
    with P(5) obtain un where un: "map_of (graph_ref G) x = Some un" by blast
    with c have "model_id un = x" unfolding ids_consistent_iff by auto
    with x un P(6)[of x] show "x \<in> set ups" by blast
  qed
  then show ?thesis by blast
qed

lemma RemoveNodes_body_next:
  assumes b: "RemoveNodes_body c mid (G, nx, a, r) = Inr (G', nx', a', r')"
  shows "map_of (graph_ref G) mid = None \<Longrightarrow> nx' = nx"
    and "\<not> c \<Longrightarrow> nx' = nx"
    and "c \<Longrightarrow> ids_consistent G \<Longrightarrow> map_of (graph_ref G) mid = Some node \<Longrightarrow>
         x \<in> set nx' \<longleftrightarrow>
           x \<in> set nx \<or> (x \<in> fst ` set (upstreams node) \<and> unreferenced G' x)"
    and "x \<in> set nx \<Longrightarrow> x \<in> set nx'"
proof -
  from b obtain ups downs where rn: "RemoveNode mid G = Inr (G', ups, downs)"
    and nx': "nx' = (if c then RemoveNodes_cascade ups G' nx else nx)"
    by (auto simp: RemoveNodes_body_def split: sum.splits)
  show "map_of (graph_ref G) mid = None \<Longrightarrow> nx' = nx"
    using rn nx' by (simp add: RemoveNode_absent)
  show "\<not> c \<Longrightarrow> nx' = nx" using nx' by simp
  show "c \<Longrightarrow> ids_consistent G \<Longrightarrow> map_of (graph_ref G) mid = Some node \<Longrightarrow>
         x \<in> set nx' \<longleftrightarrow>
           x \<in> set nx \<or> (x \<in> fst ` set (upstreams node) \<and> unreferenced G' x)"
    using RemoveNode_ups_consistent[OF rn] nx' by (simp add: RemoveNodes_cascade_set)
  show "x \<in> set nx \<Longrightarrow> x \<in> set nx'"
    using nx' by (simp add: RemoveNodes_cascade_set)
qed

lemma cascade_idsD: "cascade_ids G \<Longrightarrow> map_of (graph_ref G) k = Some n \<Longrightarrow> model_id n = k"
  unfolding cascade_ids_def by simp

lemma cascade_tracksD:
  "cascade_tracks g0 G \<Longrightarrow> map_of (graph_ref G) k = Some n \<Longrightarrow>
   \<exists>n0. map_of g0 k = Some n0 \<and> explicitly_load n = explicitly_load n0 \<and>
      (\<forall>u. u \<in> fst ` set (upstreams n0) \<longrightarrow>
         map_of (graph_ref G) u \<noteq> None \<longrightarrow> u \<in> fst ` set (upstreams n))"
  unfolding cascade_tracks_def by simp

lemma cascade_removedD:
  "cascade_removed g0 G rem \<Longrightarrow> map_of g0 k \<noteq> None \<Longrightarrow> map_of (graph_ref G) k = None \<Longrightarrow>
   k \<in> set rem"
  unfolding cascade_removed_def by simp

lemma cascade_pendingD:
  "cascade_pending g0 G pending rem \<Longrightarrow> unreferenced G u \<Longrightarrow> d \<in> set rem \<Longrightarrow>
   map_of g0 d = Some dn0 \<Longrightarrow> u \<in> fst ` set (upstreams dn0) \<Longrightarrow> u \<in> pending"
  unfolding cascade_pending_def by (elim allE[of _ u] allE[of _ d] allE[of _ dn0]) simp

lemma cascade_inv_init:
  "ids_consistent G \<Longrightarrow> cascade_inv (graph_ref G) G pending []"
  unfolding cascade_inv_def cascade_ids_def cascade_tracks_def cascade_removed_def
    cascade_pending_def ids_consistent_iff by simp

lemma unreferencedD:
  "unreferenced G u \<Longrightarrow>
   \<exists>un. map_of (graph_ref G) u = Some un \<and> downstreams un = [] \<and> \<not> explicitly_load un"
  by (auto simp: unreferenced_def split: option.splits)

lemma RemoveNodes_body_cascade:
  assumes inv: "cascade_inv g0 G (set (mid # rest) \<union> set nx) r"
    and b: "RemoveNodes_body True mid (G, nx, a, r) = Inr (G', nx', a', r')"
  shows "cascade_inv g0 G' (set rest \<union> set nx') r'"
proof -
  from inv have i1: "cascade_ids G" and i2: "cascade_tracks g0 G"
    and i5: "cascade_removed g0 G r"
    and i4: "cascade_pending g0 G (set (mid # rest) \<union> set nx) r"
    unfolding cascade_inv_def by simp_all
  note I1 = cascade_idsD[OF i1] and I2 = cascade_tracksD[OF i2]
    and I5 = cascade_removedD[OF i5] and I4 = cascade_pendingD[OF i4]
  have cons: "ids_consistent G" unfolding ids_consistent_iff using I1 by simp
  from RemoveNodes_body_graph[OF b] obtain ups downs where
    rn: "RemoveNode mid G = Inr (G', ups, downs)" by auto
  have r': "r' = List.insert mid r" using RemoveNodes_body_sets(1)[OF b] .
  note N = RemoveNodes_body_next[OF b]
  show ?thesis
  proof (cases "map_of (graph_ref G) mid")
    case None
    with rn have G': "G' = G" by (simp add: RemoveNode_absent)
    have nx': "nx' = nx" using N(1)[OF None] .
    have J4: "u \<in> set rest \<union> set nx'"
      if u: "unreferenced G' u" and d: "d \<in> set r'" and d0: "map_of g0 d = Some dn0"
        and ud: "u \<in> fst ` set (upstreams dn0)" for u d dn0
    proof -
      have "d \<in> set r"
      proof (cases "d = mid")
        case True
        with d0 None I5[of mid] show ?thesis by simp
      next
        case False
        with d r' show ?thesis by simp
      qed
      from I4[OF _ this d0 ud] u G' have "u \<in> set (mid # rest) \<union> set nx" by simp
      moreover have "u \<noteq> mid" using unreferencedD[OF u] None G' by auto
      ultimately show ?thesis using nx' by auto
    qed
    have J5: "k \<in> set r'" if "map_of g0 k \<noteq> None" "map_of (graph_ref G') k = None" for k
      using I5[of k] that G' r' by auto
    have "cascade_removed g0 G' r'" unfolding cascade_removed_def using J5 by simp
    moreover have "cascade_pending g0 G' (set rest \<union> set nx') r'"
      unfolding cascade_pending_def using J4 by simp
    ultimately show ?thesis
      unfolding cascade_inv_def using i1 i2 unfolding G' by simp
  next
    case (Some node)
    note P = RemoveNode_present[OF rn Some]
    note R = RemoveNode_present_rev[OF rn Some]
    let ?U = "fst ` set (upstreams node)"
    have J1: "model_id n' = k" if k: "map_of (graph_ref G') k = Some n'" for k n'
    proof -
      from R[OF k] obtain n0 where "map_of (graph_ref G) k = Some n0" "same_static n0 n'" by auto
      with I1[of k n0] show ?thesis by (simp add: same_static_def)
    qed
    have J2: "\<exists>n0. map_of g0 k = Some n0 \<and> explicitly_load n' = explicitly_load n0 \<and>
           (\<forall>u. u \<in> fst ` set (upstreams n0) \<longrightarrow>
              map_of (graph_ref G') u \<noteq> None \<longrightarrow> u \<in> fst ` set (upstreams n'))"
      if k: "map_of (graph_ref G') k = Some n'" for k n'
    proof -
      from R[OF k] obtain n1 where km: "k \<noteq> mid" and n1: "map_of (graph_ref G) k = Some n1"
        and s: "same_static n1 n'"
        and un: "upstreams n' = (if k \<in> set (downstreams node)
                           then AList.delete mid (upstreams n1) else upstreams n1)"
        by auto
      from I2[OF n1] obtain n0 where n0: "map_of g0 k = Some n0"
        and e: "explicitly_load n1 = explicitly_load n0"
        and up: "\<And>u. u \<in> fst ` set (upstreams n0) \<Longrightarrow> map_of (graph_ref G) u \<noteq> None \<Longrightarrow>
            u \<in> fst ` set (upstreams n1)" by blast
      have "u \<in> fst ` set (upstreams n')"
        if u: "u \<in> fst ` set (upstreams n0)" and g: "map_of (graph_ref G') u \<noteq> None" for u
      proof -
        from g P(4) have um: "u \<noteq> mid" by auto
        have "map_of (graph_ref G) u \<noteq> None"
        proof
          assume "map_of (graph_ref G) u = None"
          from P(7)[OF this] g show False by simp
        qed
        from up[OF u this] um show ?thesis by (simp add: un keys_delete)
      qed
      with n0 e s show ?thesis by (auto simp: same_static_def)
    qed
    have J5: "k \<in> set r'" if g0: "map_of g0 k \<noteq> None" and g': "map_of (graph_ref G') k = None" for k
    proof (cases "map_of (graph_ref G) k")
      case None
      from I5[OF g0 None] r' show ?thesis by simp
    next
      case (Some n1)
      have "k = mid"
      proof (rule ccontr)
        assume "k \<noteq> mid"
        from P(8)[OF this Some] g' show False by auto
      qed
      with r' show ?thesis by simp
    qed
    have J4: "u \<in> set rest \<union> set nx'"
      if u: "unreferenced G' u" and d: "d \<in> set r'" and d0: "map_of g0 d = Some dn0"
        and ud: "u \<in> fst ` set (upstreams dn0)" for u d dn0
    proof -
      from unreferencedD[OF u] obtain un' where un': "map_of (graph_ref G') u = Some un'"
        and dn': "downstreams un' = []" and ex': "\<not> explicitly_load un'" by blast
      from R[OF un'] obtain un where um: "u \<noteq> mid" and un: "map_of (graph_ref G) u = Some un"
        and s: "same_static un un'"
        and dn: "downstreams un' = (if u \<in> ?U then removeAll mid (downstreams un)
                                      else downstreams un)"
        by auto
      show ?thesis
      proof (cases "u \<in> ?U")
        case True
        with N(3)[OF _ cons Some, of u] u have "u \<in> set nx'" by simp
        then show ?thesis by simp
      next
        case False
        with dn dn' s ex' un have uu: "unreferenced G u"
          by (simp add: unreferenced_def same_static_def)
        have "d \<noteq> mid"
        proof
          assume "d = mid"
          with d0 have m0: "map_of g0 mid = Some dn0" by simp
          from I2[OF Some] m0 have
            "\<forall>x. x \<in> fst ` set (upstreams dn0) \<longrightarrow> map_of (graph_ref G) x \<noteq> None \<longrightarrow> x \<in> ?U"
            by auto
          with ud un have "u \<in> ?U" by auto
          with False show False by simp
        qed
        with d r' have "d \<in> set r" by simp
        from I4[OF uu this d0 ud] um have "u \<in> set rest \<union> set nx" by auto
        with N(4) show ?thesis by auto
      qed
    qed
    have "cascade_ids G'" unfolding cascade_ids_def using J1 by simp
    moreover have "cascade_tracks g0 G'" unfolding cascade_tracks_def using J2 by simp
    moreover have "cascade_removed g0 G' r'" unfolding cascade_removed_def using J5 by simp
    moreover have "cascade_pending g0 G' (set rest \<union> set nx') r'"
      unfolding cascade_pending_def using J4 by simp
    ultimately show ?thesis unfolding cascade_inv_def by simp
  qed
qed

lemma RemoveNodes_cascade_inv:
  assumes c: "ids_consistent G"
    and r: "RemoveNodes ids True G = Inr (G', aff, rem)"
  shows "cascade_inv (graph_ref G) G' {} rem"
proof -
  let ?g0 = "graph_ref G"
  have "cascade_inv ?g0 G' (set []) rem"
  proof (rule RemoveNodes_loop_rule[where I = "\<lambda>cur Gc a rc. cascade_inv ?g0 Gc (set cur) rc"
        and c = True and cur = ids and G = G and a = "[]" and r = "[]"])
    show "RemoveNodes_loop True ids G [] [] = Inr (G', aff, rem)"
      using r by (simp add: RemoveNodes_def)
    show "cascade_inv ?g0 G (set ids) []" using c by (rule cascade_inv_init)
  next
    fix cur Gc a rc G1 nx a1 r1
    assume i: "cascade_inv ?g0 Gc (set cur) rc"
      and w: "RemoveNodes_wave True cur (Gc, [], a, rc) = Inr (G1, nx, a1, r1)"
    have "cascade_inv ?g0 G1 (set [] \<union> set nx) r1"
    proof (rule RemoveNodes_wave_rule[where
          J = "\<lambda>cur Gc nx a rc. cascade_inv ?g0 Gc (set cur \<union> set nx) rc", OF w])
      show "cascade_inv ?g0 Gc (set cur \<union> set []) rc" using i by simp
    next
      fix mid rest Gc nx a rc G1 nx1 a1 r1
      assume "cascade_inv ?g0 Gc (set (mid # rest) \<union> set nx) rc"
        and "RemoveNodes_body True mid (Gc, nx, a, rc) = Inr (G1, nx1, a1, r1)"
      then show "cascade_inv ?g0 G1 (set rest \<union> set nx1) r1"
        by (rule RemoveNodes_body_cascade)
    qed
    then show "cascade_inv ?g0 G1 (set nx) r1" by simp
  qed
  then show ?thesis by simp
qed


subsection \<open>Graphs without missing upstreams\<close>

lemma no_missing_iff:
  "no_missing G \<longleftrightarrow> (\<forall>k n. map_of (graph_ref G) k = Some n \<longrightarrow> missing_upstreams n = [])"
proof
  assume a: "no_missing G"
  show "\<forall>k n. map_of (graph_ref G) k = Some n \<longrightarrow> missing_upstreams n = []"
  proof (intro allI impI)
    fix k n assume k: "map_of (graph_ref G) k = Some n"
    from a map_of_Some_key[OF k] have
      "case map_of (graph_ref G) k of None \<Rightarrow> True | Some n \<Rightarrow> missing_upstreams n = []"
      unfolding no_missing_def by fast
    with k show "missing_upstreams n = []" by simp
  qed
next
  assume "\<forall>k n. map_of (graph_ref G) k = Some n \<longrightarrow> missing_upstreams n = []"
  then show "no_missing G" unfolding no_missing_def by (simp split: option.splits)
qed

lemma no_missingD: "no_missing G \<Longrightarrow> map_of (graph_ref G) k = Some n \<Longrightarrow> missing_upstreams n = []"
  unfolding no_missing_iff by simp

lemma RemoveNode_no_missing:
  assumes inv: "no_missing G" and r: "RemoveNode mid G = Inr (G', ups, downs)"
  shows "no_missing G'"
proof (cases "map_of (graph_ref G) mid")
  case None
  with r inv show ?thesis by (simp add: RemoveNode_absent)
next
  case (Some node)
  show ?thesis
    unfolding no_missing_iff
  proof (intro allI impI)
    fix k n' assume "map_of (graph_ref G') k = Some n'"
    from RemoveNode_present_rev[OF r Some this] obtain n0 where
      "map_of (graph_ref G) k = Some n0" "same_static n0 n'" by auto
    with no_missingD[OF inv] show "missing_upstreams n' = []" by (simp add: same_static_def)
  qed
qed

lemma UpdateNodes_body_no_missing:
  assumes inv: "no_missing G" and r: "UpdateNodes_body mm mid (G, upd) = Inr (G', upd')"
  shows "no_missing G'"
proof (cases "map_of (graph_ref G) mid")
  case None
  with r inv show ?thesis by (simp add: UpdateNodes_body_absent)
next
  case (Some node)
  show ?thesis
    unfolding no_missing_iff
  proof (intro allI impI)
    fix k n' assume "map_of (graph_ref G') k = Some n'"
    from UpdateNodes_body_present_rev[OF r Some this] obtain n0 where
      "map_of (graph_ref G) k = Some n0" "missing_upstreams n' = missing_upstreams n0" by auto
    with no_missingD[OF inv] show "missing_upstreams n' = []" by simp
  qed
qed

lemma AddNodes_body_no_missing:
  assumes inv: "no_missing G" and r: "AddNodes_body mm mid (G, aff) = Inr (G', aff')"
  shows "no_missing G'"
proof -
  from AddNodes_body_frame[OF r] obtain info where
    s: "store_unchecked (emplace_node mid (new_DependencyNode mid info) (graph_ref G)) (graph_ref G')"
    by auto
  show ?thesis
    unfolding no_missing_iff
  proof (intro allI impI)
    fix k n' assume "map_of (graph_ref G') k = Some n'"
    from store_unchecked_Some_rev[OF s this] obtain n1 where
      n1: "map_of (emplace_node mid (new_DependencyNode mid info) (graph_ref G)) k = Some n1"
      and m: "missing_upstreams n' = missing_upstreams n1"
      by (auto dest: unchecked_from_fields simp: same_static_def)
    have "missing_upstreams n1 = []"
    proof (cases "k = mid \<and> map_of (graph_ref G) mid = None")
      case True
      with n1 show ?thesis by (auto simp: map_of_emplace_node new_DependencyNode_def)
    next
      case False
      with n1 have "map_of (graph_ref G) k = Some n1" by (auto simp: map_of_emplace_node)
      with no_missingD[OF inv] show ?thesis by simp
    qed
    with m show "missing_upstreams n' = []" by simp
  qed
qed

lemma RemoveNodes_no_missing:
  assumes inv: "no_missing G" and r: "RemoveNodes ids c G = Inr (G', aff, rem)"
  shows "no_missing G'"
proof (rule RemoveNodes_loop_rule[where I = "\<lambda>cur G a r. no_missing G"
        and c = c and cur = ids and G = G and a = "[]" and r = "[]"])
  show "RemoveNodes_loop c ids G [] [] = Inr (G', aff, rem)"
    using r by (simp add: RemoveNodes_def)
  show "no_missing G" by (fact inv)
next
  fix cur G a r G1 nx a1 r1
  assume i: "no_missing (G :: 'a DependencyGraph)"
    and w: "RemoveNodes_wave c cur (G, [], a, r) = Inr (G1, nx, a1, r1)"
  show "no_missing G1"
  proof (rule RemoveNodes_wave_rule[where J = "\<lambda>cur G nx a r. no_missing G", OF w i])
    fix mid rest G nx a r G1 nx1 a1 r1
    assume j: "no_missing (G :: 'a DependencyGraph)"
      and b: "RemoveNodes_body c mid (G, nx, a, r) = Inr (G1, nx1, a1, r1)"
    from RemoveNodes_body_graph[OF b] obtain ups downs where
      "RemoveNode mid G = Inr (G1, ups, downs)" by auto
    from RemoveNode_no_missing[OF j this] show "no_missing G1" .
  qed
qed

lemma UpdateNodes_no_missing:
  assumes inv: "no_missing G" and r: "UpdateNodes ids mm G = Inr (G', upd)"
  shows "no_missing G'"
proof (rule UpdateNodes_loop_rule[where J = "\<lambda>ids G upd. no_missing G"
        and mm = mm and ids = ids and G = G and upd = "[]"])
  show "UpdateNodes_loop mm ids (G, []) = Inr (G', upd)"
    using r by (simp add: UpdateNodes_def)
  show "no_missing G" by (fact inv)
next
  fix mid rest G upd G1 upd1
  assume "no_missing (G :: 'a DependencyGraph)"
    and "UpdateNodes_body mm mid (G, upd) = Inr (G1, upd1)"
  then show "no_missing G1" by (rule UpdateNodes_body_no_missing)
qed

lemma AddNodes_no_missing:
  assumes inv: "no_missing G" and r: "AddNodes ids mm G = Inr (G', aff)"
  shows "no_missing G'"
proof (rule AddNodes_loop_rule[where J = "\<lambda>ids G aff. no_missing G"
        and mm = mm and ids = ids and G = G and aff = "[]"])
  show "AddNodes_loop mm ids (G, []) = Inr (G', aff)"
    using r by (simp add: AddNodes_def)
  show "no_missing G" by (fact inv)
next
  fix mid rest G aff G1 aff1
  assume "no_missing (G :: 'a DependencyGraph)"
    and "AddNodes_body mm mid (G, aff) = Inr (G1, aff1)"
  then show "no_missing G1" by (rule AddNodes_body_no_missing)
qed

lemma UpdateNodes_reciprocity_no_missing:
  assumes rc: "waiter_reciprocity G" and cl: "waiters_closed G" and nm: "no_missing G"
    and r: "UpdateNodes ids mm G = Inr (G', upd)"
  shows "waiter_reciprocity G' \<and> waiters_closed G'"
proof -
  note U = UpdateNodes_waiters[OF rc cl r]
  have "waiter_reciprocity G'"
    unfolding update_waiters_reciprocity[OF U]
    using no_missingD[OF UpdateNodes_no_missing[OF nm r]] by simp
  moreover from U have "waiters_closed G'" unfolding update_waiters_def by simp
  ultimately show ?thesis by simp
qed

lemma mutated_no_missing:
  "mutated G0 G \<Longrightarrow> waiter_reciprocity G0 \<Longrightarrow> waiters_closed G0 \<Longrightarrow> no_missing G0 \<Longrightarrow>
   waiter_reciprocity G \<and> waiters_closed G \<and> no_missing G"
proof (induction rule: mutated.induct)
  case start
  then show ?case by simp
next
  case (add G ids mm G' affected)
  then show ?case using AddNodes_waiters AddNodes_no_missing by blast
next
  case (update G ids mm G' updated)
  then show ?case using UpdateNodes_reciprocity_no_missing UpdateNodes_no_missing by blast
next
  case (remove G ids cascading_removal G' affected removed)
  then show ?case using RemoveNodes_waiters RemoveNodes_no_missing by blast
qed

subsection \<open>The mutators return on well-formed graphs\<close>

text \<open>
  On a well-formed graph none of the error values is reached: \<open>RemoveNodes\<close> returns,
  and so do \<open>UpdateNodes\<close> and \<open>AddNodes\<close> when \<open>GetModelInfo\<close> finds the models they are
  given. The graph they return is well-formed again.
\<close>

lemma downstreams_closed_unchecked:
  assumes c: "downstreams_closed h" and s: "store_unchecked h h'"
  shows "downstreams_closed h'"
  unfolding downstreams_closed_def
proof (intro allI impI)
  fix k n' d
  assume k: "map_of h' k = Some n'" and d: "d \<in> set (downstreams n')"
  from store_unchecked_Some_rev[OF s k] obtain n where
    n: "map_of h k = Some n" and "downstreams n' = downstreams n"
    by (auto dest: unchecked_from_fields)
  with c d have "map_of h d \<noteq> None" unfolding downstreams_closed_def by metis
  then show "map_of h' d \<noteq> None" using store_unchecked_None[OF s, of d] by simp
qed

lemma store_unchecked_update:
  assumes "map_of h p = Some node"
  shows "store_unchecked h (AList.update p (node\<lparr>checked := False, status := Success\<rparr>) h)"
  unfolding store_unchecked_def
proof (intro conjI allI)
  show "map fst (AList.update p (node\<lparr>checked := False, status := Success\<rparr>) h) = map fst h"
    using update_keys_present[OF assms] .
  fix k
  show "rel_option unchecked_from (map_of h k)
     (map_of (AList.update p (node\<lparr>checked := False, status := Success\<rparr>) h) k)"
    using assms by (cases "map_of h k") (auto simp: update_conv' unchecked_from_def)
qed

lemma UncheckDownstream_returns:
  "downstreams_closed h \<Longrightarrow> set ps \<subseteq> dom (map_of h) \<Longrightarrow> \<exists>h'. UncheckDownstream ps h = Inr h'"
proof (induction ps h rule: UncheckDownstream.induct)
  case (1 h)
  then show ?case by simp
next
  case (2 p ps h)
  from "2.prems"(2) obtain node where n: "map_of h p = Some node" by auto
  show ?case
  proof (cases "checked node")
    case True
    let ?h1 = "AList.update p (node\<lparr>checked := False, status := Success\<rparr>) h"
    note s1 = store_unchecked_update[OF n]
    have c1: "downstreams_closed ?h1" using downstreams_closed_unchecked[OF "2.prems"(1) s1] .
    have dom1: "map_of ?h1 k \<noteq> None \<longleftrightarrow> map_of h k \<noteq> None" for k
      using store_unchecked_None[OF s1, of k] by simp
    have "set (downstreams node) \<subseteq> dom (map_of h)"
      using "2.prems"(1) n unfolding downstreams_closed_def by blast
    then have "set (downstreams node) \<subseteq> dom (map_of ?h1)" using dom1 by blast
    from "2.IH"(1)[OF n True c1 this] obtain h' where
      u: "UncheckDownstream (downstreams node) ?h1 = Inr h'" by blast
    note s2 = UncheckDownstream_store[OF u]
    have c2: "downstreams_closed h'" using downstreams_closed_unchecked[OF c1 s2] .
    have "set ps \<subseteq> dom (map_of h')"
      using "2.prems"(2) dom1 store_unchecked_None[OF s2] by force
    from "2.IH"(2)[OF n True u c2 this] obtain h'' where "UncheckDownstream ps h' = Inr h''"
      by blast
    with n True u show ?thesis by simp
  next
    case False
    from "2.prems"(2) have "set ps \<subseteq> dom (map_of h)" by simp
    from "2.IH"(3)[OF n False "2.prems"(1) this] n False show ?thesis by simp
  qed
qed

lemma RemoveNode_upstreams_returns:
  "fst ` set ups \<subseteq> dom (map_of h) \<Longrightarrow> \<exists>r. RemoveNode_upstreams mid ups acc h = Inr r"
proof (induction ups arbitrary: acc h)
  case Nil
  then show ?case by simp
next
  case (Cons u rest)
  then obtain un where un: "map_of h (fst u) = Some un" by auto
  have "fst ` set rest \<subseteq> dom (map_of (AList.update (fst u) (DisconnectDownstream mid un) h))"
    using Cons.prems by (auto simp: update_conv')
  from Cons.IH[OF this] un show ?case by simp
qed

lemma RemoveNode_downstreams_returns:
  "set ds \<subseteq> dom (map_of h) \<Longrightarrow> \<exists>h'. RemoveNode_downstreams mid ds h = Inr h'"
proof (induction ds arbitrary: h)
  case Nil
  then show ?case by simp
next
  case (Cons d rest)
  then obtain dn where dn: "map_of h d = Some dn" by auto
  let ?h1 = "AList.update d (DisconnectUpstream mid dn) h"
  have c: "call_node d (DisconnectUpstream mid) h = Inr ?h1" using dn by (simp add: call_node_def)
  have "set rest \<subseteq> dom (map_of ?h1)" using Cons.prems by (auto simp: update_conv')
  from Cons.IH[OF this] c show ?case by simp
qed

lemma UpdateNodes_disconnect_returns:
  "fst ` set ups \<subseteq> dom (map_of h) \<Longrightarrow> \<exists>h'. UpdateNodes_disconnect mid ups h = Inr h'"
proof (induction ups arbitrary: h)
  case Nil
  then show ?case by simp
next
  case (Cons u rest)
  then obtain un where un: "map_of h (fst u) = Some un" by auto
  let ?h1 = "AList.update (fst u) (DisconnectDownstream mid un) h"
  have c: "call_node (fst u) (DisconnectDownstream mid) h = Inr ?h1"
    using un by (simp add: call_node_def)
  have "fst ` set rest \<subseteq> dom (map_of ?h1)" using Cons.prems by (auto simp: update_conv')
  from Cons.IH[OF this] c show ?case by simp
qed

lemma well_formed_closed:
  assumes "well_formed G"
  shows "downstreams_closed (graph_ref G)"
    and "map_of (graph_ref G) k = Some n \<Longrightarrow> fst ` set (upstreams n) \<subseteq> dom (map_of (graph_ref G))"
    and "map_of (graph_ref G) k = Some n \<Longrightarrow> set (downstreams n) \<subseteq> dom (map_of (graph_ref G))"
    and "map_of (graph_ref G) k = Some n \<Longrightarrow>
         set (missing_upstreams n) \<subseteq> dom (map_of (missing_nodes_ref G))"
proof -
  from assms have e: "edges_ok (graph_ref G)" and m: "missing_names_registered G"
    by (simp_all add: well_formed_def edges_ok_iff)
  show "downstreams_closed (graph_ref G)"
    unfolding downstreams_closed_def using edges_okD(3)[OF e] by blast
  show "map_of (graph_ref G) k = Some n \<Longrightarrow> fst ` set (upstreams n) \<subseteq> dom (map_of (graph_ref G))"
    using edges_okD(2)[OF e] by blast
  show "map_of (graph_ref G) k = Some n \<Longrightarrow> set (downstreams n) \<subseteq> dom (map_of (graph_ref G))"
    using edges_okD(3)[OF e] by blast
  show "map_of (graph_ref G) k = Some n \<Longrightarrow>
         set (missing_upstreams n) \<subseteq> dom (map_of (missing_nodes_ref G))"
    using m unfolding missing_names_registered_iff by blast
qed

lemma RemoveNode_returns:
  assumes wf: "well_formed G"
  shows "\<exists>r. RemoveNode mid G = Inr r"
proof (cases "map_of (graph_ref G) mid")
  case None
  then show ?thesis by (simp add: RemoveNode_absent)
next
  case (Some node)
  note W = well_formed_closed[OF wf]
  from RemoveNode_upstreams_returns[OF W(2)[OF Some], of mid "[]"] obtain h1 ups where
    s1: "RemoveNode_upstreams mid (upstreams node) [] (graph_ref G) = Inr (h1, ups)" by auto
  note F1 = RemoveNode_upstreams_frame[OF s1]
  let ?n1 = "if mid \<in> fst ` set (upstreams node) then DisconnectDownstream mid node else node"
  have n1: "map_of h1 mid = Some ?n1" using F1 Some by simp
  have dom1: "map_of h1 k \<noteq> None \<longleftrightarrow> map_of (graph_ref G) k \<noteq> None" for k
    using F1 by simp
  have c1: "downstreams_closed h1"
    unfolding downstreams_closed_def
  proof (intro allI impI)
    fix k n d
    assume k: "map_of h1 k = Some n" and d: "d \<in> set (downstreams n)"
    from k F1 obtain n0 where n0: "map_of (graph_ref G) k = Some n0"
      and "n = (if k \<in> fst ` set (upstreams node) then DisconnectDownstream mid n0 else n0)"
      by (cases "map_of (graph_ref G) k") auto
    with d have "d \<in> set (downstreams n0)" by (auto split: if_splits)
    with W(3)[OF n0] have "map_of (graph_ref G) d \<noteq> None" by auto
    then show "map_of h1 d \<noteq> None" using dom1 by simp
  qed
  have d1: "set (downstreams ?n1) \<subseteq> dom (map_of h1)"
    using c1 n1 unfolding downstreams_closed_def by blast
  from UncheckDownstream_returns[OF c1 d1] obtain h2 where
    s2: "UncheckDownstream (downstreams ?n1) h1 = Inr h2" by blast
  have "set (downstreams ?n1) \<subseteq> dom (map_of h2)"
    using d1 UncheckDownstream_None[OF s2] by force
  from RemoveNode_downstreams_returns[OF this, of mid] obtain h3 where
    s3: "RemoveNode_downstreams mid (downstreams ?n1) h2 = Inr h3" by blast
  from erase_missing_refs_ok[OF W(4)[OF Some], of mid] obtain m where
    s4: "erase_missing_refs mid (missing_upstreams node) (missing_nodes_ref G) = Inr m" by blast
  from Some s1 n1 s2 s3 s4 show ?thesis by (simp add: RemoveNode_def)
qed

lemma RemoveNode_registered:
  assumes inv: "missing_names_registered G" and r: "RemoveNode mid G = Inr (G', ups, downs)"
  shows "missing_names_registered G'"
proof (cases "map_of (graph_ref G) mid")
  case None
  with r inv show ?thesis by (simp add: RemoveNode_absent)
next
  case (Some node)
  note P = RemoveNode_present[OF r Some]
  have w: "map_of (missing_nodes_ref G') nm = None \<longleftrightarrow> map_of (missing_nodes_ref G) nm = None" for nm
    using P(9) by (rule dom_map_of_keys)
  show ?thesis
    unfolding missing_names_registered_iff
  proof (intro allI impI)
    fix k n' nm
    assume a: "map_of (graph_ref G') k = Some n'" and b: "nm \<in> set (missing_upstreams n')"
    from RemoveNode_present_rev[OF r Some a] obtain n0 where
      "map_of (graph_ref G) k = Some n0" "same_static n0 n'" by auto
    with inv b have "map_of (missing_nodes_ref G) nm \<noteq> None"
      unfolding missing_names_registered_iff by (simp add: same_static_def)
    then show "map_of (missing_nodes_ref G') nm \<noteq> None" using w by simp
  qed
qed

lemma RemoveNode_well_formed:
  assumes "well_formed G" and "RemoveNode mid G = Inr (G', ups, downs)"
  shows "well_formed G'"
proof -
  from assms(1) have e: "edges_ok (graph_ref G)" and m: "missing_names_registered G"
    by (simp_all add: well_formed_def edges_ok_iff)
  from RemoveNode_edges[OF e assms(2)] RemoveNode_registered[OF m assms(2)]
  show ?thesis by (simp add: well_formed_def edges_ok_iff)
qed

lemma RemoveNodes_wave_returns:
  "well_formed G \<Longrightarrow>
   \<exists>G' nx' a' r'. RemoveNodes_wave c cur (G, nx, a, r) = Inr (G', nx', a', r') \<and> well_formed G'"
proof (induction cur arbitrary: G nx a r)
  case Nil
  then show ?case by simp
next
  case (Cons mid rest)
  from RemoveNode_returns[OF Cons.prems, of mid] obtain G1 ups downs where
    rn: "RemoveNode mid G = Inr (G1, ups, downs)" by auto
  note wf1 = RemoveNode_well_formed[OF Cons.prems rn]
  from rn obtain nx1 a1 r1 where
    b: "RemoveNodes_body c mid (G, nx, a, r) = Inr (G1, nx1, a1, r1)"
    by (simp add: RemoveNodes_body_def)
  from Cons.IH[OF wf1, of nx1 a1 r1] b show ?case by simp
qed

lemma RemoveNodes_loop_returns:
  "well_formed G \<Longrightarrow> \<exists>res. RemoveNodes_loop c cur G a r = Inr res"
proof (induction c cur G a r rule: RemoveNodes_loop.induct)
  case (1 c cur G a r)
  show ?case
  proof (cases "cur = []")
    case True
    then show ?thesis by (simp add: RemoveNodes_loop.simps)
  next
    case False
    from RemoveNodes_wave_returns[OF "1.prems", of c cur "[]" a r] obtain G1 nx a1 r1 where
      w: "RemoveNodes_wave c cur (G, [], a, r) = Inr (G1, nx, a1, r1)" and wf1: "well_formed G1"
      by blast
    from "1.IH"[OF False w refl refl refl wf1] obtain res where
      l: "RemoveNodes_loop c nx G1 a1 r1 = Inr res" by blast
    have "RemoveNodes_loop c cur G a r = RemoveNodes_loop c nx G1 a1 r1"
      using False w by (subst RemoveNodes_loop.simps) simp
    with l show ?thesis by (intro exI[of _ res]) simp
  qed
qed

lemma RemoveNodes_returns:
  "well_formed G \<Longrightarrow> \<exists>res. RemoveNodes ids c G = Inr res"
  unfolding RemoveNodes_def by (rule RemoveNodes_loop_returns)

lemma UpdateNodes_body_returns:
  assumes wf: "well_formed G"
    and info: "map_of (graph_ref G) mid \<noteq> None \<longrightarrow> mm mid \<noteq> None"
  shows "\<exists>G' upd'. UpdateNodes_body mm mid (G, upd) = Inr (G', upd') \<and> well_formed G' \<and>
     map fst (graph_ref G') = map fst (graph_ref G)"
proof (cases "map_of (graph_ref G) mid")
  case None
  with wf show ?thesis by (simp add: UpdateNodes_body_absent)
next
  case (Some node)
  note W = well_formed_closed[OF wf]
  from UncheckDownstream_returns[OF W(1) W(3)[OF Some]] obtain h1 where
    s1: "UncheckDownstream (downstreams node) (graph_ref G) = Inr h1" by blast
  have dom1: "map_of h1 k \<noteq> None \<longleftrightarrow> map_of (graph_ref G) k \<noteq> None" for k
    using UncheckDownstream_None[OF s1, of k] by simp
  have "fst ` set (upstreams node) \<subseteq> dom (map_of h1)"
    using W(2)[OF Some] dom1 by blast
  from UpdateNodes_disconnect_returns[OF this, of mid] obtain h2 where
    s2: "UpdateNodes_disconnect mid (upstreams node) h1 = Inr h2" by blast
  from erase_missing_refs_ok[OF W(4)[OF Some], of mid] obtain m where
    s3: "erase_missing_refs mid (missing_upstreams node) (missing_nodes_ref G) = Inr m" by blast
  from info Some obtain i where s4: "mm mid = Some i" by auto
  have "map_of h2 mid \<noteq> None"
    using UpdateNodes_disconnect_frame[OF s2] dom1[of mid] Some by simp
  then obtain n2 where n2: "map_of h2 mid = Some n2" by auto
  let ?f = "\<lambda>n :: 'a DependencyNode. n\<lparr>model_config := info_model_config i,
                explicitly_load := info_explicitly_load i, upstreams := [],
                checked := False, status := Success\<rparr>"
  have s5: "call_node mid ?f h2 = Inr (AList.update mid (?f n2) h2)"
    using n2 by (simp add: call_node_def)
  let ?G' = "G\<lparr>graph_ref := AList.update mid (?f n2) h2, missing_nodes_ref := m\<rparr>"
  have b: "UpdateNodes_body mm mid (G, upd) = Inr (?G', List.insert mid upd)"
    using Some s1 s2 s3 s4 s5 by (simp add: UpdateNodes_body_def)
  from wf have e: "edges_ok (graph_ref G)" and r: "missing_names_registered G"
    by (simp_all add: well_formed_def edges_ok_iff)
  have "edge_reciprocity ?G' \<and> edges_closed ?G'"
    using UpdateNodes_body_edges[OF e b] by (rule edges_ok_iff[THEN iffD1])
  with UpdateNodes_body_registered[OF r b]
  have "well_formed ?G'" unfolding well_formed_def by simp
  moreover have "map fst (graph_ref ?G') = map fst (graph_ref G)"
    using UpdateNodes_body_present(3)[OF b Some] .
  ultimately show ?thesis using b by blast
qed

lemma UpdateNodes_loop_returns:
  "well_formed G \<Longrightarrow> (\<forall>k \<in> set ids. map_of (graph_ref G) k \<noteq> None \<longrightarrow> mm k \<noteq> None) \<Longrightarrow>
   \<exists>res. UpdateNodes_loop mm ids (G, upd) = Inr res"
proof (induction ids arbitrary: G upd)
  case Nil
  then show ?case by simp
next
  case (Cons mid rest)
  from Cons.prems(2) have "map_of (graph_ref G) mid \<noteq> None \<longrightarrow> mm mid \<noteq> None" by simp
  from UpdateNodes_body_returns[where mm = mm and mid = mid and upd = upd, OF Cons.prems(1) this]
  obtain G1 upd1 where
    b: "UpdateNodes_body mm mid (G, upd) = Inr (G1, upd1)" and wf1: "well_formed G1"
    and k: "map fst (graph_ref G1) = map fst (graph_ref G)" by blast
  have "\<forall>x \<in> set rest. map_of (graph_ref G1) x \<noteq> None \<longrightarrow> mm x \<noteq> None"
    using Cons.prems(2) dom_map_of_keys[OF k] by simp
  from Cons.IH[OF wf1 this, of upd1] b show ?case by simp
qed

lemma UpdateNodes_returns:
  "well_formed G \<Longrightarrow> (\<forall>k \<in> set ids. map_of (graph_ref G) k \<noteq> None \<longrightarrow> mm k \<noteq> None) \<Longrightarrow>
   \<exists>res. UpdateNodes ids mm G = Inr res"
  unfolding UpdateNodes_def by (rule UpdateNodes_loop_returns)

lemma edges_ok_downstreams_closed: "edges_ok h \<Longrightarrow> downstreams_closed h"
  unfolding edges_ok_def downstreams_closed_def by blast

lemma AddNodes_dependents_returns:
  "downstreams_closed (graph_ref G) \<Longrightarrow> \<exists>res. AddNodes_dependents ds (G, aff) = Inr res"
proof (induction ds arbitrary: G aff)
  case Nil
  then show ?case by simp
next
  case (Cons d rest)
  show ?case
  proof (cases "map_of (graph_ref G) d")
    case None
    with Cons.IH[OF Cons.prems, of aff] show ?thesis by (simp add: FindNode_exact)
  next
    case (Some n)
    then have "set [d] \<subseteq> dom (map_of (graph_ref G))" by auto
    from UncheckDownstream_returns[OF Cons.prems this] obtain h where
      u: "UncheckDownstream [d] (graph_ref G) = Inr h" by blast
    have "downstreams_closed (graph_ref (G\<lparr>graph_ref := h\<rparr>))"
      using downstreams_closed_unchecked[OF Cons.prems UncheckDownstream_store[OF u]] by simp
    from Cons.IH[OF this, of "List.insert d aff"] Some u show ?thesis
      by (simp add: FindNode_exact)
  qed
qed

lemma AddNodes_body_returns:
  assumes e: "edges_ok (graph_ref G)" and info: "mm mid \<noteq> None"
  shows "\<exists>G' aff'. AddNodes_body mm mid (G, aff) = Inr (G', aff') \<and> edges_ok (graph_ref G')"
proof -
  from info obtain i where i: "mm mid = Some i" by auto
  let ?G1 = "G\<lparr>graph_ref := emplace_node mid (new_DependencyNode mid i) (graph_ref G)\<rparr>"
  have "downstreams_closed (graph_ref ?G1)"
    using edges_ok_downstreams_closed[OF edges_ok_emplace[OF e]] by simp
  from AddNodes_dependents_returns[OF this] have
    d: "\<exists>res. AddNodes_dependents ws (?G1, List.insert mid aff) = Inr res" for ws by blast
  have "\<exists>res. AddNodes_body mm mid (G, aff) = Inr res"
  proof (cases "map_of (missing_nodes_ref G) (name mid)")
    case None
    with i show ?thesis by (simp add: AddNodes_body_def)
  next
    case (Some ws)
    with i d[of ws] show ?thesis by (simp add: AddNodes_body_def)
  qed
  then obtain G' aff' where b: "AddNodes_body mm mid (G, aff) = Inr (G', aff')" by auto
  from AddNodes_body_edges[OF e b] b show ?thesis by blast
qed

lemma AddNodes_loop_returns:
  "edges_ok (graph_ref G) \<Longrightarrow> (\<forall>k \<in> set ids. mm k \<noteq> None) \<Longrightarrow>
   \<exists>res. AddNodes_loop mm ids (G, aff) = Inr res"
proof (induction ids arbitrary: G aff)
  case Nil
  then show ?case by simp
next
  case (Cons mid rest)
  from Cons.prems(2) have "mm mid \<noteq> None" by simp
  from AddNodes_body_returns[where mm = mm and mid = mid and aff = aff, OF Cons.prems(1) this]
  obtain G1 aff1 where
    b: "AddNodes_body mm mid (G, aff) = Inr (G1, aff1)" and e1: "edges_ok (graph_ref G1)"
    by blast
  from Cons.prems(2) have "\<forall>k \<in> set rest. mm k \<noteq> None" by simp
  from Cons.IH[OF e1 this, of aff1] b show ?case by simp
qed

lemma AddNodes_returns:
  "well_formed G \<Longrightarrow> (\<forall>k \<in> set ids. mm k \<noteq> None) \<Longrightarrow> \<exists>res. AddNodes ids mm G = Inr res"
  unfolding AddNodes_def
  by (rule AddNodes_loop_returns) (simp_all add: well_formed_def edges_ok_iff)

lemma AddNodes_body_registered:
  assumes inv: "missing_names_registered G"
    and r: "AddNodes_body mm mid (G, aff) = Inr (G', aff')"
  shows "missing_names_registered G'"
proof -
  from AddNodes_body_frame[OF r] obtain info where
    w: "missing_nodes_ref G' = missing_nodes_ref G" and
    s: "store_unchecked (emplace_node mid (new_DependencyNode mid info) (graph_ref G)) (graph_ref G')"
    by auto
  show ?thesis
    unfolding missing_names_registered_iff
  proof (intro allI impI)
    fix k n' nm
    assume k: "map_of (graph_ref G') k = Some n'" and b: "nm \<in> set (missing_upstreams n')"
    from store_unchecked_Some_rev[OF s k] obtain n1 where
      n1: "map_of (emplace_node mid (new_DependencyNode mid info) (graph_ref G)) k = Some n1"
      and m: "missing_upstreams n' = missing_upstreams n1"
      by (auto dest: unchecked_from_fields simp: same_static_def)
    have "map_of (graph_ref G) k = Some n1"
    proof (cases "k = mid \<and> map_of (graph_ref G) mid = None")
      case True
      with n1 have "missing_upstreams n1 = []"
        by (auto simp: map_of_emplace_node new_DependencyNode_def)
      with m b show ?thesis by simp
    next
      case False
      with n1 show ?thesis by (auto simp: map_of_emplace_node)
    qed
    with inv b m have "map_of (missing_nodes_ref G) nm \<noteq> None"
      unfolding missing_names_registered_iff by simp
    then show "map_of (missing_nodes_ref G') nm \<noteq> None" using w by simp
  qed
qed

lemma RemoveNodes_registered:
  assumes inv: "missing_names_registered G" and r: "RemoveNodes ids c G = Inr (G', aff, rem)"
  shows "missing_names_registered G'"
proof (rule RemoveNodes_loop_rule[where I = "\<lambda>cur G a r. missing_names_registered G"
        and c = c and cur = ids and G = G and a = "[]" and r = "[]"])
  show "RemoveNodes_loop c ids G [] [] = Inr (G', aff, rem)"
    using r by (simp add: RemoveNodes_def)
  show "missing_names_registered G" by (fact inv)
next
  fix cur G a r G1 nx a1 r1
  assume i: "missing_names_registered (G :: 'a DependencyGraph)"
    and w: "RemoveNodes_wave c cur (G, [], a, r) = Inr (G1, nx, a1, r1)"
  show "missing_names_registered G1"
  proof (rule RemoveNodes_wave_rule[where J = "\<lambda>cur G nx a r. missing_names_registered G",
        OF w i])
    fix mid rest G nx a r G1 nx1 a1 r1
    assume j: "missing_names_registered (G :: 'a DependencyGraph)"
      and b: "RemoveNodes_body c mid (G, nx, a, r) = Inr (G1, nx1, a1, r1)"
    from RemoveNodes_body_graph[OF b] obtain ups downs where
      "RemoveNode mid G = Inr (G1, ups, downs)" by auto
    from RemoveNode_registered[OF j this] show "missing_names_registered G1" .
  qed
qed

lemma UpdateNodes_registered:
  assumes inv: "missing_names_registered G" and r: "UpdateNodes ids mm G = Inr (G', upd)"
  shows "missing_names_registered G'"
proof (rule UpdateNodes_loop_rule[where J = "\<lambda>ids G upd. missing_names_registered G"
        and mm = mm and ids = ids and G = G and upd = "[]"])
  show "UpdateNodes_loop mm ids (G, []) = Inr (G', upd)"
    using r by (simp add: UpdateNodes_def)
  show "missing_names_registered G" by (fact inv)
next
  fix mid rest G upd G1 upd1
  assume "missing_names_registered (G :: 'a DependencyGraph)"
    and "UpdateNodes_body mm mid (G, upd) = Inr (G1, upd1)"
  then show "missing_names_registered G1" by (rule UpdateNodes_body_registered)
qed

lemma AddNodes_registered:
  assumes inv: "missing_names_registered G" and r: "AddNodes ids mm G = Inr (G', aff)"
  shows "missing_names_registered G'"
proof (rule AddNodes_loop_rule[where J = "\<lambda>ids G aff. missing_names_registered G"
        and mm = mm and ids = ids and G = G and aff = "[]"])
  show "AddNodes_loop mm ids (G, []) = Inr (G', aff)"
    using r by (simp add: AddNodes_def)
  show "missing_names_registered G" by (fact inv)
next
  fix mid rest G aff G1 aff1
  assume "missing_names_registered (G :: 'a DependencyGraph)"
    and "AddNodes_body mm mid (G, aff) = Inr (G1, aff1)"
  then show "missing_names_registered G1" by (rule AddNodes_body_registered)
qed

lemma mutated_well_formed: "mutated G0 G \<Longrightarrow> well_formed G0 \<Longrightarrow> well_formed G"
proof (induction rule: mutated.induct)
  case start
  then show ?case by simp
next
  case (add G ids mm G' affected)
  then have "edges_ok (graph_ref G)" "missing_names_registered G"
    by (simp_all add: well_formed_def edges_ok_iff)
  from AddNodes_edges[OF this(1) add.hyps(2)] AddNodes_registered[OF this(2) add.hyps(2)]
  show ?case by (simp add: well_formed_def edges_ok_iff)
next
  case (update G ids mm G' updated)
  then have "edges_ok (graph_ref G)" "missing_names_registered G"
    by (simp_all add: well_formed_def edges_ok_iff)
  from UpdateNodes_edges[OF this(1) update.hyps(2)]
    UpdateNodes_registered[OF this(2) update.hyps(2)]
  show ?case by (simp add: well_formed_def edges_ok_iff)
next
  case (remove G ids cascading_removal G' affected removed)
  then have "edges_ok (graph_ref G)" "missing_names_registered G"
    by (simp_all add: well_formed_def edges_ok_iff)
  from RemoveNodes_edges[OF this(1) remove.hyps(2)]
    RemoveNodes_registered[OF this(2) remove.hyps(2)]
  show ?case by (simp add: well_formed_def edges_ok_iff)
qed

subsection \<open>Fuzzy lookup under name index coverage\<close>

text \<open>
  When the name index is covered, the single identifier it holds for a name has a node, so
  the fuzzy lookup returns one.
\<close>

lemma FindNode_fuzzy_covered:
  assumes "map_of (graph_ref G) mid = None" and "allow_fuzzy"
    and "map_of (global_map_ref G) (name mid) = Some [x]" and "name x = name mid"
    and "name_index_coverage G"
  shows "\<exists>xn. map_of (graph_ref G) x = Some xn \<and> FindNode mid allow_fuzzy G = Some (x, xn)"
proof -
  from assms(3,4) have "x \<in> set (by_name G (name x))" by (simp add: by_name_def)
  with assms(5) have "map_of (graph_ref G) x \<noteq> None" unfolding name_index_coverage_iff by simp
  then obtain xn where "map_of (graph_ref G) x = Some xn" by auto
  with assms(1,2,3) show ?thesis by (simp add: FindNode_def)
qed


section \<open>The claims\<close>

text \<open>
  C6, as the code has it. The claim is that, when the identifier is not a key of the node
  map, fuzzy matching is allowed and the name index holds exactly one identifier for the
  name, \<open>FindNode\<close> returns the node of that identifier. The code looks that identifier up
  in the node map and returns none when it has no node there: in the example graph the
  lookup of \<open>B\<close> without namespace finds the node of \<open>ns:B\<close>; after \<open>RemoveNodes\<close> of \<open>ns:B\<close>
  the name index still holds \<open>ns:B\<close> alone for the name, and the same lookup returns none.
\<close>

theorem FindNode_fuzzy_counterexample:
  "FindNode (ModelIdentifier [] ''B'') True ex_G = Some (ex_B, ex_node_B) \<and>
   RemoveNodes [ex_B] False ex_G = Inr (ex_G_without_B, [], [ex_B]) \<and>
   map_of (graph_ref ex_G_without_B) (ModelIdentifier [] ''B'') = None \<and>
   map_of (global_map_ref ex_G_without_B) (name (ModelIdentifier [] ''B'')) = Some [ex_B] \<and>
   map_of (graph_ref ex_G_without_B) ex_B = None \<and>
   FindNode (ModelIdentifier [] ''B'') True ex_G_without_B = None"
proof -
  have "RemoveNodes [ex_B] False ex_G = Inr (ex_G_without_B, [], [ex_B])"
    by (simp add: ex_defs eval_defs)
  moreover have "FindNode (ModelIdentifier [] ''B'') True ex_G = Some (ex_B, ex_node_B)"
    "FindNode (ModelIdentifier [] ''B'') True ex_G_without_B = None"
    by (simp_all add: ex_defs FindNode_def)
  moreover have "map_of (graph_ref ex_G_without_B) (ModelIdentifier [] ''B'') = None"
    "map_of (global_map_ref ex_G_without_B) (name (ModelIdentifier [] ''B'')) = Some [ex_B]"
    "map_of (graph_ref ex_G_without_B) ex_B = None"
    by (simp_all add: ex_defs)
  ultimately show ?thesis by simp
qed

text \<open>
  C6, amended. For every identifier and flag, \<open>FindNode\<close> returns the node stored under the
  identifier when it is a key of the node map. Otherwise, when fuzzy matching is allowed
  and the name index holds exactly one identifier for the name, it returns the node
  stored under that identifier when that identifier is a key of the node map, and none
  when it is not. In all other cases (no fuzzy matching, no entry for the name, or an
  entry that is empty or holds two or more identifiers) it returns none.
\<close>

theorem FindNode_cases:
  "(map_of (graph_ref G) mid = Some n \<longrightarrow> FindNode mid allow_fuzzy G = Some (mid, n)) \<and>
   (map_of (graph_ref G) mid = None \<and> allow_fuzzy \<and>
      map_of (global_map_ref G) (name mid) = Some [x] \<and> map_of (graph_ref G) x = Some xn \<longrightarrow>
      FindNode mid allow_fuzzy G = Some (x, xn)) \<and>
   (map_of (graph_ref G) mid = None \<and> allow_fuzzy \<and>
      map_of (global_map_ref G) (name mid) = Some [x] \<and> map_of (graph_ref G) x = None \<longrightarrow>
      FindNode mid allow_fuzzy G = None) \<and>
   (map_of (graph_ref G) mid = None \<and>
      (\<not> allow_fuzzy \<or> map_of (global_map_ref G) (name mid) = None \<or>
       (\<exists>ids. map_of (global_map_ref G) (name mid) = Some ids \<and> length ids \<noteq> 1)) \<longrightarrow>
      FindNode mid allow_fuzzy G = None)"
proof (intro conjI impI)
  assume "map_of (graph_ref G) mid = Some n"
  then show "FindNode mid allow_fuzzy G = Some (mid, n)" by (simp add: FindNode_def)
next
  assume "map_of (graph_ref G) mid = None \<and> allow_fuzzy \<and>
      map_of (global_map_ref G) (name mid) = Some [x] \<and> map_of (graph_ref G) x = Some xn"
  then show "FindNode mid allow_fuzzy G = Some (x, xn)"
    by (simp add: FindNode_def)
next
  assume "map_of (graph_ref G) mid = None \<and> allow_fuzzy \<and>
      map_of (global_map_ref G) (name mid) = Some [x] \<and> map_of (graph_ref G) x = None"
  then show "FindNode mid allow_fuzzy G = None"
    by (simp add: FindNode_def)
next
  assume a: "map_of (graph_ref G) mid = None \<and>
      (\<not> allow_fuzzy \<or> map_of (global_map_ref G) (name mid) = None \<or>
       (\<exists>ids. map_of (global_map_ref G) (name mid) = Some ids \<and> length ids \<noteq> 1))"
  then have n: "map_of (graph_ref G) mid = None" by (rule conjunct1)
  from a have "\<not> allow_fuzzy \<or> map_of (global_map_ref G) (name mid) = None \<or>
       (\<exists>ids. map_of (global_map_ref G) (name mid) = Some ids \<and> length ids \<noteq> 1)"
    by (rule conjunct2)
  then show "FindNode mid allow_fuzzy G = None"
  proof (elim disjE exE conjE)
    assume "\<not> allow_fuzzy"
    with n show ?thesis by (simp add: FindNode_def)
  next
    assume "map_of (global_map_ref G) (name mid) = None"
    with n show ?thesis by (simp add: FindNode_def)
  next
    fix ids assume "map_of (global_map_ref G) (name mid) = Some ids" "length ids \<noteq> 1"
    with n show ?thesis by (simp add: FindNode_def)
  qed
qed

theorem FindNode_cases_witness:
  "map_of (graph_ref ex_G) ex_A = Some ex_node_A \<and>
   FindNode ex_A False ex_G = Some (ex_A, ex_node_A) \<and>
   map_of (graph_ref ex_G) (ModelIdentifier [] ''B'') = None \<and>
   map_of (global_map_ref ex_G) (name (ModelIdentifier [] ''B'')) = Some [ex_B] \<and>
   map_of (graph_ref ex_G) ex_B = Some ex_node_B \<and>
   FindNode (ModelIdentifier [] ''B'') True ex_G = Some (ex_B, ex_node_B) \<and>
   map_of (graph_ref ex_G_without_B) (ModelIdentifier [] ''B'') = None \<and>
   map_of (global_map_ref ex_G_without_B) (name (ModelIdentifier [] ''B'')) = Some [ex_B] \<and>
   map_of (graph_ref ex_G_without_B) ex_B = None \<and>
   FindNode (ModelIdentifier [] ''B'') True ex_G_without_B = None \<and>
   map_of (graph_ref ex_G) (ModelIdentifier [] ''Z'') = None \<and>
   map_of (global_map_ref ex_G) (name (ModelIdentifier [] ''Z'')) = None \<and>
   FindNode (ModelIdentifier [] ''Z'') True ex_G = None \<and>
   FindNode (ModelIdentifier [] ''B'') False ex_G = None"
  using FindNode_cases[where G = ex_G and mid = ex_A and n = ex_node_A and allow_fuzzy = False]
    FindNode_cases[where G = ex_G and mid = "ModelIdentifier [] ''B''" and allow_fuzzy = True
      and x = ex_B and xn = ex_node_B]
    FindNode_cases[where G = ex_G_without_B and mid = "ModelIdentifier [] ''B''"
      and allow_fuzzy = True and x = ex_B]
    FindNode_cases[where G = ex_G and mid = "ModelIdentifier [] ''Z''" and allow_fuzzy = True]
    FindNode_cases[where G = ex_G and mid = "ModelIdentifier [] ''B''" and allow_fuzzy = False]
  by (simp add: ex_defs)

text \<open>
  C7. For every input list of identifiers and either value of \<open>cascading_removal\<close>, the
  affected set and the removed set returned by \<open>RemoveNodes\<close> are disjoint. (In this
  source file \<open>RemoveNode\<close> never adds to its \<open>downstreams\<close> result, so the affected set is
  in fact empty.)
\<close>

theorem RemoveNodes_affected_removed_disjoint:
  "RemoveNodes ids cascading_removal G = Inr (G', affected, removed) \<Longrightarrow>
   set affected \<inter> set removed = {}"
  using RemoveNodes_affected_empty[of ids cascading_removal G G' affected removed] by simp

theorem RemoveNodes_affected_removed_disjoint_witness:
  "RemoveNodes [ex_A] True ex_G =
     Inr (ex_G_without_A, [], [ex_A]) \<and>
   set ([] :: ModelIdentifier list) \<inter> set [ex_A] = {}"
  using RemoveNodes_affected_removed_disjoint[of "[ex_A]" True ex_G _ "[]" "[ex_A]"]
  by (simp add: ex_defs eval_defs)

text \<open>
  C8. The reason reported for a model name that appears in two or more repositories
  with namespacing disabled is exactly the string
  \<open>model appears in two or more repositories\<close>.
\<close>

theorem duplicate_reason_literal:
  "\<not> enable_model_namespacing \<Longrightarrow>
   (r1, names1) \<in> set listing \<Longrightarrow> (r2, names2) \<in> set listing \<Longrightarrow> r1 \<noteq> r2 \<Longrightarrow>
   nm \<in> set names1 \<Longrightarrow> nm \<in> set names2 \<Longrightarrow>
   duplicate_reason enable_model_namespacing listing nm =
     Some ''model appears in two or more repositories''"
  using two_repositories[OF repositories_of_member repositories_of_member, of r1 names1 listing nm r2 names2]
  by (simp add: duplicate_reason_def MODEL_READY_REASON_DUPLICATE_def)

theorem duplicate_reason_literal_witness:
  "\<not> False \<and>
   (''/repo1'', [''A'', ''X'']) \<in> set [(''/repo1'', [''A'', ''X'']), (''/repo2'', [''A''])] \<and>
   (''/repo2'', [''A'']) \<in> set [(''/repo1'', [''A'', ''X'']), (''/repo2'', [''A''])] \<and>
   ''/repo1'' \<noteq> ''/repo2'' \<and> ''A'' \<in> set [''A'', ''X''] \<and> ''A'' \<in> set [''A''] \<and>
   duplicate_reason False [(''/repo1'', [''A'', ''X'']), (''/repo2'', [''A''])] ''A'' =
     Some ''model appears in two or more repositories'' \<and>
   duplicate_reason False [(''/repo1'', [''A'', ''X'']), (''/repo2'', [''A''])] ''X'' = None"
  using duplicate_reason_literal[of False "''/repo1''" "[''A'', ''X'']"
      "[(''/repo1'', [''A'', ''X'']), (''/repo2'', [''A''])]" "''/repo2''" "[''A'']" "''A''"]
  by (simp add: duplicate_reason_def repositories_of_def)

text \<open>
  C9. The removed set returned by \<open>RemoveNodes\<close> contains every identifier of the input,
  also one that has no node in the graph: for such an identifier \<open>RemoveNode\<close> leaves the
  graph as it is and returns two empty sets, and \<open>RemoveNodes\<close> still reports it as
  removed.
\<close>

theorem RemoveNodes_reports_every_input:
  "(map_of (graph_ref G) mid = None \<longrightarrow> RemoveNode mid G = Inr (G, [], [])) \<and>
   (RemoveNodes ids cascading_removal G = Inr (G', affected, removed) \<longrightarrow>
      set ids \<subseteq> set removed)"
  using RemoveNode_absent[of G mid]
    RemoveNodes_removed_superset[of ids cascading_removal G G' affected removed]
  by simp

theorem RemoveNodes_reports_every_input_witness:
  "map_of (graph_ref ex_G) (ModelIdentifier [] ''Z'') = None \<and>
   RemoveNode (ModelIdentifier [] ''Z'') ex_G = Inr (ex_G, [], []) \<and>
   RemoveNodes [ModelIdentifier [] ''Z''] True ex_G =
     Inr (ex_G, [], [ModelIdentifier [] ''Z'']) \<and>
   set [ModelIdentifier [] ''Z''] \<subseteq> set [ModelIdentifier [] ''Z'']"
  using RemoveNodes_reports_every_input[of ex_G "ModelIdentifier [] ''Z''"
      "[ModelIdentifier [] ''Z'']" True ex_G "[]" "[ModelIdentifier [] ''Z'']"]
  by (simp add: ex_defs eval_defs)

text \<open>
  C10. \<open>UpdateNodes\<close> and \<open>RemoveNode\<close> look each name of the node's \<open>missing_upstreams_\<close> up
  in \<open>missing_nodes_ref_\<close> and use the result unchecked. When every name in a node's
  \<open>missing_upstreams_\<close> is a key of \<open>missing_nodes_ref_\<close>, the lookup succeeds every time:
  neither operation reaches the use of an \<open>end()\<close> iterator.
\<close>

theorem missing_lookup_succeeds:
  "missing_names_registered G \<Longrightarrow>
   UpdateNodes ids mm G \<noteq> Inl EndIteratorDeref \<and> RemoveNode mid G \<noteq> Inl EndIteratorDeref"
  using UpdateNodes_loop_no_end_deref[of "(G, [])" mm ids] RemoveNode_no_end_deref[of G mid]
  by (simp add: UpdateNodes_def)

theorem missing_lookup_succeeds_witness:
  "missing_names_registered ex_G \<and>
   UpdateNodes [ex_E] ex_infos ex_G \<noteq> Inl EndIteratorDeref \<and>
   RemoveNode ex_E ex_G \<noteq> Inl EndIteratorDeref \<and>
   UpdateNodes [ex_E] ex_infos (ex_G\<lparr>missing_nodes_ref := []\<rparr>) = Inl EndIteratorDeref"
  using missing_lookup_succeeds[of ex_G "[ex_E]" ex_infos ex_E]
  by (simp add: missing_names_registered_def ex_defs eval_defs)

text \<open>
  C4. Edge reciprocity holds in every graph state reachable by the graph mutators
  \<open>AddNodes\<close>, \<open>UpdateNodes\<close> and \<open>RemoveNodes\<close>: for all nodes \<open>n\<close> and \<open>u\<close> of the graph, \<open>u\<close> is a
  key of \<open>n.upstreams_\<close> if and only if \<open>n\<close> is a member of \<open>u.downstreams_\<close>. The states are
  those reached from a graph in which the property holds and every edge points to a node
  of the graph, which the reached states keep as well.
\<close>

theorem edge_reciprocity_reachable:
  "edge_reciprocity G0 \<Longrightarrow> edges_closed G0 \<Longrightarrow> mutated G0 G \<Longrightarrow>
   edge_reciprocity G \<and> edges_closed G"
  using mutated_edges_ok[of G0 G] by (simp add: edges_ok_iff)

theorem edge_reciprocity_reachable_witness:
  "edge_reciprocity ex_G \<and> edges_closed ex_G \<and>
   mutated ex_G
     ex_G_without_A \<and>
   edge_reciprocity
     ex_G_without_A"
proof -
  let ?G1 = ex_G_without_A
  have a: "edge_reciprocity ex_G" by (simp add: edge_reciprocity_def ex_defs)
  have b: "edges_closed ex_G" by (simp add: edges_closed_def ex_defs)
  have "RemoveNodes [ex_A] True ex_G = Inr (?G1, [], [ex_A])"
    by (simp add: ex_defs eval_defs)
  then have c: "mutated ex_G ?G1" by (rule mutated.remove[OF mutated.start])
  from edge_reciprocity_reachable[OF a b c] a b c show ?thesis by simp
qed

text \<open>
  C1, as the code has it. The claim is that waiter reciprocity (a name is in
  \<open>n.missing_upstreams_\<close> if and only if \<open>n\<close> is in the waiters of the name) holds in every
  state reachable by the graph mutators and that \<open>UpdateNodes\<close> in particular preserves
  it. \<open>UpdateNodes\<close> erases the updated node from the waiters of every name in its
  \<open>missing_upstreams_\<close> and leaves \<open>missing_upstreams_\<close> as it was: in the example graph, where
  the property holds, updating \<open>E\<close> breaks it.
\<close>

theorem waiter_reciprocity_counterexample:
  "waiter_reciprocity ex_G \<and> waiters_closed ex_G \<and>
   UpdateNodes [ex_E] ex_infos ex_G = Inr (ex_G_updated, [ex_E]) \<and>
   mutated ex_G ex_G_updated \<and>
   map_of (graph_ref ex_G_updated) ex_E = Some ex_node_E_updated \<and>
   ''M'' \<in> set (missing_upstreams ex_node_E_updated) \<and>
   ex_E \<notin> set (waiting ex_G_updated ''M'') \<and>
   \<not> waiter_reciprocity ex_G_updated"
proof -
  have u: "UpdateNodes [ex_E] ex_infos ex_G = Inr (ex_G_updated, [ex_E])"
    by (simp add: ex_defs eval_defs)
  then have "mutated ex_G ex_G_updated" by (rule mutated.update[OF mutated.start])
  moreover have "waiter_reciprocity ex_G" "waiters_closed ex_G" "\<not> waiter_reciprocity ex_G_updated"
    by (simp_all add: waiter_reciprocity_def waiters_closed_def waiting_def ex_defs)
  moreover have "map_of (graph_ref ex_G_updated) ex_E = Some ex_node_E_updated"
    "''M'' \<in> set (missing_upstreams ex_node_E_updated)"
    "ex_E \<notin> set (waiting ex_G_updated ''M'')"
    by (simp_all add: waiting_def ex_defs)
  ultimately show ?thesis using u by simp
qed

text \<open>
  C1, amended. Waiter reciprocity, together with every registered waiter being a
  node of the graph, is preserved by \<open>AddNodes\<close> and \<open>RemoveNodes\<close>. After \<open>UpdateNodes\<close>
  every registered waiter is still a node of the graph, no updated node is registered
  under any name, and the equivalence holds for every node that was not updated; it
  holds for the whole graph exactly when every updated node has an empty
  \<open>missing_upstreams_\<close>. So the property holds in every state that the three mutators reach
  from a graph in which it holds and no node has a missing upstream, such as the empty
  graph.
\<close>

theorem waiter_reciprocity_mutators:
  "waiter_reciprocity G \<Longrightarrow> waiters_closed G \<Longrightarrow>
   (AddNodes ids mm G = Inr (Ga, aff_a) \<longrightarrow> waiter_reciprocity Ga \<and> waiters_closed Ga) \<and>
   (RemoveNodes ids cascading_removal G = Inr (Gr, aff_r, removed) \<longrightarrow>
      waiter_reciprocity Gr \<and> waiters_closed Gr) \<and>
   (UpdateNodes ids mm G = Inr (Gu, updated) \<longrightarrow>
      waiters_closed Gu \<and>
      (\<forall>k \<in> set updated. \<forall>nm. k \<notin> set (waiting Gu nm)) \<and>
      (\<forall>k n nm. map_of (graph_ref Gu) k = Some n \<longrightarrow> k \<notin> set updated \<longrightarrow>
         (nm \<in> set (missing_upstreams n) \<longleftrightarrow> k \<in> set (waiting Gu nm))) \<and>
      (waiter_reciprocity Gu \<longleftrightarrow>
         (\<forall>k \<in> set updated. \<forall>n. map_of (graph_ref Gu) k = Some n \<longrightarrow>
            missing_upstreams n = []))) \<and>
   (no_missing G \<longrightarrow> mutated G Gm \<longrightarrow>
      waiter_reciprocity Gm \<and> waiters_closed Gm \<and> no_missing Gm)"
proof (intro conjI impI)
  assume rc: "waiter_reciprocity G" and cl: "waiters_closed G"
  {
    assume "AddNodes ids mm G = Inr (Ga, aff_a)"
    from AddNodes_waiters[OF rc cl this]
    show "waiter_reciprocity Ga" and "waiters_closed Ga" by simp_all
  next
    assume "RemoveNodes ids cascading_removal G = Inr (Gr, aff_r, removed)"
    from RemoveNodes_waiters[OF rc cl this]
    show "waiter_reciprocity Gr" and "waiters_closed Gr" by simp_all
  next
    assume "UpdateNodes ids mm G = Inr (Gu, updated)"
    note U = UpdateNodes_waiters[OF rc cl this]
    from U show "waiters_closed Gu" unfolding update_waiters_def by blast
    from U show "\<forall>k \<in> set updated. \<forall>nm. k \<notin> set (waiting Gu nm)"
      unfolding update_waiters_def by blast
    from U show "\<forall>k n nm. map_of (graph_ref Gu) k = Some n \<longrightarrow> k \<notin> set updated \<longrightarrow>
         (nm \<in> set (missing_upstreams n) \<longleftrightarrow> k \<in> set (waiting Gu nm))"
      unfolding update_waiters_def by blast
    from update_waiters_reciprocity[OF U]
    show "waiter_reciprocity Gu \<longleftrightarrow>
         (\<forall>k \<in> set updated. \<forall>n. map_of (graph_ref Gu) k = Some n \<longrightarrow>
            missing_upstreams n = [])" .
  next
    assume "no_missing G" and "mutated G Gm"
    from mutated_no_missing[OF this(2) rc cl this(1)]
    show "waiter_reciprocity Gm" and "waiters_closed Gm" and "no_missing Gm" by simp_all
  }
qed

theorem waiter_reciprocity_mutators_witness:
  "waiter_reciprocity ex_G \<and> waiters_closed ex_G \<and>
   AddNodes [ex_M] ex_infos ex_G = Inr (ex_G_added, [ex_E, ex_M]) \<and>
   waiter_reciprocity ex_G_added \<and> waiters_closed ex_G_added \<and>
   RemoveNodes [ex_E] True ex_G = Inr (ex_G_emptied, [], [ex_B, ex_A, ex_E]) \<and>
   waiter_reciprocity ex_G_emptied \<and> waiters_closed ex_G_emptied \<and>
   UpdateNodes [ex_E] ex_infos ex_G = Inr (ex_G_updated, [ex_E]) \<and>
   waiters_closed ex_G_updated \<and> ex_E \<notin> set (waiting ex_G_updated ''M'') \<and>
   waiter_reciprocity ex_G_empty \<and> waiters_closed ex_G_empty \<and> no_missing ex_G_empty \<and>
   mutated ex_G_empty ex_G_only_M \<and> waiter_reciprocity ex_G_only_M"
proof -
  have a: "waiter_reciprocity ex_G" and b: "waiters_closed ex_G"
    by (simp_all add: waiter_reciprocity_def waiters_closed_def waiting_def ex_defs)
  have c: "AddNodes [ex_M] ex_infos ex_G = Inr (ex_G_added, [ex_E, ex_M])"
    by (simp add: ex_defs eval_defs)
  have d: "RemoveNodes [ex_E] True ex_G = Inr (ex_G_emptied, [], [ex_B, ex_A, ex_E])"
    by (simp add: ex_defs eval_defs)
  have e: "UpdateNodes [ex_E] ex_infos ex_G = Inr (ex_G_updated, [ex_E])"
    by (simp add: ex_defs eval_defs)
  from waiter_reciprocity_mutators[OF a b, where ids = "[ex_M]" and mm = ex_infos
      and Ga = ex_G_added and aff_a = "[ex_E, ex_M]"] c
  have f: "waiter_reciprocity ex_G_added \<and> waiters_closed ex_G_added" by blast
  from waiter_reciprocity_mutators[OF a b, where ids = "[ex_E]" and cascading_removal = True
      and Gr = ex_G_emptied and aff_r = "[]" and removed = "[ex_B, ex_A, ex_E]"] d
  have g: "waiter_reciprocity ex_G_emptied \<and> waiters_closed ex_G_emptied" by blast
  from waiter_reciprocity_mutators[OF a b, where ids = "[ex_E]" and mm = ex_infos
      and Gu = ex_G_updated and updated = "[ex_E]"] e
  have h: "waiters_closed ex_G_updated \<and> ex_E \<notin> set (waiting ex_G_updated ''M'')" by simp
  have i: "waiter_reciprocity ex_G_empty" and j: "waiters_closed ex_G_empty"
    and k: "no_missing ex_G_empty"
    by (simp_all add: waiter_reciprocity_def waiters_closed_def no_missing_def ex_defs)
  have "AddNodes [ex_M] ex_infos ex_G_empty = Inr (ex_G_only_M, [ex_M])"
    by (simp add: ex_defs eval_defs)
  then have l: "mutated ex_G_empty ex_G_only_M" by (rule mutated.add[OF mutated.start])
  from waiter_reciprocity_mutators[OF i j, where Gm = ex_G_only_M] k l
  have m: "waiter_reciprocity ex_G_only_M" by blast
  from a b c d e f g h i j k l m show ?thesis by simp
qed

text \<open>
  C2, as the code has it. The claim is that after \<open>UpdateNodes\<close> the updated node's
  \<open>upstreams_\<close>, \<open>missing_upstreams_\<close> and \<open>fuzzy_matched_upstreams_\<close> are all empty. Only
  \<open>upstreams_\<close> is cleared: the updated \<open>E\<close> of the example still has its missing and its
  fuzzy-matched name.
\<close>

theorem UpdateNodes_keeps_missing_counterexample:
  "UpdateNodes [ex_E] ex_infos ex_G = Inr (ex_G_updated, [ex_E]) \<and>
   map_of (graph_ref ex_G) ex_E = Some ex_node_E \<and>
   map_of (graph_ref ex_G_updated) ex_E = Some ex_node_E_updated \<and>
   missing_upstreams ex_node_E_updated = [''M''] \<and>
   fuzzy_matched_upstreams ex_node_E_updated = [''B''] \<and>
   \<not> (upstreams ex_node_E_updated = [] \<and> missing_upstreams ex_node_E_updated = [] \<and>
      fuzzy_matched_upstreams ex_node_E_updated = [])"
  by (simp add: ex_defs eval_defs)

text \<open>
  C2, amended. For every identifier passed to \<open>UpdateNodes\<close> that has a node in the
  graph, after \<open>UpdateNodes\<close> returns the node's \<open>upstreams_\<close> is empty, its \<open>model_config_\<close> and
  \<open>explicitly_load_\<close> are those of the looked-up model info, \<open>checked_\<close> is false and
  \<open>status_\<close> is success; \<open>missing_upstreams_\<close> and \<open>fuzzy_matched_upstreams_\<close> are as they were
  before the call.
\<close>

theorem UpdateNodes_resets_node:
  "UpdateNodes ids mm G = Inr (G', updated) \<Longrightarrow> mid \<in> set ids \<Longrightarrow>
   map_of (graph_ref G) mid = Some n \<Longrightarrow>
   \<exists>info n'. mm mid = Some info \<and> map_of (graph_ref G') mid = Some n' \<and>
     upstreams n' = [] \<and>
     model_config n' = info_model_config info \<and>
     explicitly_load n' = info_explicitly_load info \<and>
     \<not> checked n' \<and> status n' = Success \<and>
     missing_upstreams n' = missing_upstreams n \<and>
     fuzzy_matched_upstreams n' = fuzzy_matched_upstreams n"
  using UpdateNodes_updated[of ids mm G G' updated mid n]
  by (auto simp: updated_node_def)

theorem UpdateNodes_resets_node_witness:
  "UpdateNodes [ex_E] ex_infos ex_G = Inr (ex_G_updated, [ex_E]) \<and> ex_E \<in> set [ex_E] \<and>
   map_of (graph_ref ex_G) ex_E = Some ex_node_E \<and>
   (\<exists>info n'. ex_infos ex_E = Some info \<and> map_of (graph_ref ex_G_updated) ex_E = Some n' \<and>
     upstreams n' = [] \<and>
     model_config n' = info_model_config info \<and>
     explicitly_load n' = info_explicitly_load info \<and>
     \<not> checked n' \<and> status n' = Success \<and>
     missing_upstreams n' = missing_upstreams ex_node_E \<and>
     fuzzy_matched_upstreams n' = fuzzy_matched_upstreams ex_node_E)"
proof -
  have a: "UpdateNodes [ex_E] ex_infos ex_G = Inr (ex_G_updated, [ex_E])"
    by (simp add: ex_defs eval_defs)
  have b: "ex_E \<in> set [ex_E]" by simp
  have c: "map_of (graph_ref ex_G) ex_E = Some ex_node_E" by (simp add: ex_defs)
  from UpdateNodes_resets_node[OF a b c] a b c show ?thesis by simp
qed

text \<open>
  C3, as the code has it. The claim is that name index coverage (an identifier is a key
  of the node map if and only if it is a member of \<open>by_name[id.name]\<close>) holds in every state
  reachable by the graph mutators, \<open>AddNodes\<close> inserting into both maps and node removal
  erasing from both. No mutator writes \<open>global_map_ref_\<close>: in the example graph, where the
  property holds, adding \<open>M\<close> gives a node that the index does not list, and removing \<open>A\<close>
  leaves an index entry without a node; adding \<open>M\<close> to the empty graph loses the property
  as well.
\<close>

theorem name_index_counterexample:
  "name_index_coverage ex_G \<and>
   AddNodes [ex_M] ex_infos ex_G = Inr (ex_G_added, [ex_E, ex_M]) \<and>
   map_of (graph_ref ex_G_added) ex_M \<noteq> None \<and>
   ex_M \<notin> set (by_name ex_G_added (name ex_M)) \<and>
   \<not> name_index_coverage ex_G_added \<and>
   RemoveNodes [ex_A] False ex_G = Inr (ex_G_without_A, [], [ex_A]) \<and>
   map_of (graph_ref ex_G_without_A) ex_A = None \<and>
   ex_A \<in> set (by_name ex_G_without_A (name ex_A)) \<and>
   \<not> name_index_coverage ex_G_without_A \<and>
   name_index_coverage ex_G_empty \<and>
   AddNodes [ex_M] ex_infos ex_G_empty = Inr (ex_G_only_M, [ex_M]) \<and>
   \<not> name_index_coverage ex_G_only_M"
proof -
  have "AddNodes [ex_M] ex_infos ex_G = Inr (ex_G_added, [ex_E, ex_M])"
    by (simp add: ex_defs eval_defs)
  moreover have "RemoveNodes [ex_A] False ex_G = Inr (ex_G_without_A, [], [ex_A])"
    by (simp add: ex_defs eval_defs)
  moreover have "AddNodes [ex_M] ex_infos ex_G_empty = Inr (ex_G_only_M, [ex_M])"
    by (simp add: ex_defs eval_defs)
  moreover have "name_index_coverage ex_G" "\<not> name_index_coverage ex_G_added"
    "\<not> name_index_coverage ex_G_without_A" "name_index_coverage ex_G_empty"
    "\<not> name_index_coverage ex_G_only_M"
    by (simp_all add: name_index_coverage_def by_name_def ex_defs)
  moreover have "map_of (graph_ref ex_G_added) ex_M \<noteq> None"
    "ex_M \<notin> set (by_name ex_G_added (name ex_M))"
    "map_of (graph_ref ex_G_without_A) ex_A = None"
    "ex_A \<in> set (by_name ex_G_without_A (name ex_A))"
    by (simp_all add: by_name_def ex_defs)
  ultimately show ?thesis by simp
qed

text \<open>
  C3, amended. No graph mutator writes the name index. \<open>AddNodes\<close> inserts each given
  identifier into the node map only, \<open>RemoveNodes\<close> erases each removed identifier from the
  node map only, and \<open>UpdateNodes\<close> changes the keys of neither map. So, from a graph with
  name index coverage, the property holds after \<open>UpdateNodes\<close>, after an \<open>AddNodes\<close> all of
  whose identifiers had a node already, and after a \<open>RemoveNodes\<close> none of whose removed
  identifiers had a node, and in no other case.
\<close>

theorem name_index_untouched:
  "(AddNodes ids mm G = Inr (Ga, aff_a) \<longrightarrow>
      global_map_ref Ga = global_map_ref G \<and>
      (\<forall>k. map_of (graph_ref Ga) k \<noteq> None \<longleftrightarrow> k \<in> set ids \<or> map_of (graph_ref G) k \<noteq> None) \<and>
      (name_index_coverage G \<longrightarrow>
         (name_index_coverage Ga \<longleftrightarrow> (\<forall>k \<in> set ids. map_of (graph_ref G) k \<noteq> None)))) \<and>
   (RemoveNodes ids cascading_removal G = Inr (Gr, aff_r, removed) \<longrightarrow>
      global_map_ref Gr = global_map_ref G \<and>
      (\<forall>k. map_of (graph_ref Gr) k \<noteq> None \<longleftrightarrow>
         map_of (graph_ref G) k \<noteq> None \<and> k \<notin> set removed) \<and>
      (name_index_coverage G \<longrightarrow>
         (name_index_coverage Gr \<longleftrightarrow> (\<forall>k \<in> set removed. map_of (graph_ref G) k = None)))) \<and>
   (UpdateNodes ids mm G = Inr (Gu, updated) \<longrightarrow>
      global_map_ref Gu = global_map_ref G \<and>
      map fst (graph_ref Gu) = map fst (graph_ref G) \<and>
      (name_index_coverage G \<longrightarrow> name_index_coverage Gu))"
proof (intro conjI impI)
  assume r: "AddNodes ids mm G = Inr (Ga, aff_a)"
  note A = AddNodes_index[OF r]
  from A show "global_map_ref Ga = global_map_ref G" by simp
  from A show "\<forall>k. map_of (graph_ref Ga) k \<noteq> None \<longleftrightarrow>
      k \<in> set ids \<or> map_of (graph_ref G) k \<noteq> None" by simp
  assume c: "name_index_coverage G"
  from A have g: "global_map_ref Ga = global_map_ref G" by simp
  from A show "name_index_coverage Ga \<longleftrightarrow> (\<forall>k \<in> set ids. map_of (graph_ref G) k \<noteq> None)"
    unfolding coverage_same_index[OF c g] by auto
next
  assume r: "RemoveNodes ids cascading_removal G = Inr (Gr, aff_r, removed)"
  note A = RemoveNodes_index[OF r]
  from A show "global_map_ref Gr = global_map_ref G" by simp
  from A show "\<forall>k. map_of (graph_ref Gr) k \<noteq> None \<longleftrightarrow>
      map_of (graph_ref G) k \<noteq> None \<and> k \<notin> set removed" by simp
  assume c: "name_index_coverage G"
  from A have g: "global_map_ref Gr = global_map_ref G" by simp
  from A show "name_index_coverage Gr \<longleftrightarrow> (\<forall>k \<in> set removed. map_of (graph_ref G) k = None)"
    unfolding coverage_same_index[OF c g] by auto
next
  assume r: "UpdateNodes ids mm G = Inr (Gu, updated)"
  note A = UpdateNodes_index[OF r]
  from A show "global_map_ref Gu = global_map_ref G" by simp
  from A show "map fst (graph_ref Gu) = map fst (graph_ref G)" by simp
  assume c: "name_index_coverage G"
  from A have g: "global_map_ref Gu = global_map_ref G"
    and k: "map fst (graph_ref Gu) = map fst (graph_ref G)" by simp_all
  have "map_of (graph_ref Gu) x \<noteq> None \<longleftrightarrow> map_of (graph_ref G) x \<noteq> None" for x
    using dom_map_of_keys[OF k, of x] by simp
  then show "name_index_coverage Gu" unfolding coverage_same_index[OF c g] by simp
qed

theorem name_index_untouched_witness:
  "AddNodes [ex_M] ex_infos ex_G = Inr (ex_G_added, [ex_E, ex_M]) \<and>
   global_map_ref ex_G_added = global_map_ref ex_G \<and>
   RemoveNodes [ex_A] False ex_G = Inr (ex_G_without_A, [], [ex_A]) \<and>
   global_map_ref ex_G_without_A = global_map_ref ex_G \<and>
   UpdateNodes [ex_E] ex_infos ex_G = Inr (ex_G_updated, [ex_E]) \<and>
   global_map_ref ex_G_updated = global_map_ref ex_G \<and>
   map fst (graph_ref ex_G_updated) = map fst (graph_ref ex_G) \<and>
   name_index_coverage ex_G \<and> name_index_coverage ex_G_updated"
proof -
  have a: "AddNodes [ex_M] ex_infos ex_G = Inr (ex_G_added, [ex_E, ex_M])"
    by (simp add: ex_defs eval_defs)
  have b: "RemoveNodes [ex_A] False ex_G = Inr (ex_G_without_A, [], [ex_A])"
    by (simp add: ex_defs eval_defs)
  have c: "UpdateNodes [ex_E] ex_infos ex_G = Inr (ex_G_updated, [ex_E])"
    by (simp add: ex_defs eval_defs)
  have d: "name_index_coverage ex_G"
    by (simp add: name_index_coverage_def by_name_def ex_defs)
  from name_index_untouched[where ids = "[ex_M]" and mm = ex_infos and G = ex_G
      and Ga = ex_G_added and aff_a = "[ex_E, ex_M]"] a
  have e: "global_map_ref ex_G_added = global_map_ref ex_G" by blast
  from name_index_untouched[where ids = "[ex_A]" and cascading_removal = False and G = ex_G
      and Gr = ex_G_without_A and aff_r = "[]" and removed = "[ex_A]"] b
  have f: "global_map_ref ex_G_without_A = global_map_ref ex_G" by blast
  from name_index_untouched[where ids = "[ex_E]" and mm = ex_infos and G = ex_G
      and Gu = ex_G_updated and updated = "[ex_E]"] c d
  have g: "global_map_ref ex_G_updated = global_map_ref ex_G \<and>
      map fst (graph_ref ex_G_updated) = map fst (graph_ref ex_G) \<and>
      name_index_coverage ex_G_updated" by blast
  from a b c d e f g show ?thesis by simp
qed

text \<open>
  C5. During \<open>RemoveNodes\<close> with \<open>cascading_removal\<close> set, a former upstream of the removed
  node is queued for the next wave exactly when, after the disconnection, it has a node
  whose \<open>downstreams_\<close> is empty and whose \<open>explicitly_load_\<close> is false. Consequently a node
  with \<open>explicitly_load_\<close> false and no downstreams is not in the graph after a cascading
  removal that removed one of its former downstreams, that is a node \<open>d\<close> whose
  \<open>upstreams_\<close> listed it when the call started (with edge reciprocity: a member \<open>d\<close> of its
  \<open>downstreams_\<close>). Nodes carry the identifier they are stored under.
\<close>

theorem cascading_removal_queue:
  "(RemoveNodes_body True mid (G, next_removal, affected, removed) =
        Inr (G', next_removal', affected', removed') \<longrightarrow>
      ids_consistent G \<longrightarrow> map_of (graph_ref G) mid = Some node \<longrightarrow>
      (\<forall>u. u \<in> set next_removal' \<longleftrightarrow>
         u \<in> set next_removal \<or> (u \<in> fst ` set (upstreams node) \<and> unreferenced G' u))) \<and>
   (RemoveNodes ids True G = Inr (Gr, aff_r, rem_r) \<longrightarrow>
      ids_consistent G \<longrightarrow> d \<in> set rem_r \<longrightarrow> map_of (graph_ref G) d = Some dn \<longrightarrow>
      u \<in> fst ` set (upstreams dn) \<or>
        (edge_reciprocity G \<and> (\<exists>un. map_of (graph_ref G) u = Some un \<and> d \<in> set (downstreams un))) \<longrightarrow>
      \<not> unreferenced Gr u)"
proof (intro conjI impI allI)
  fix x
  assume "RemoveNodes_body True mid (G, next_removal, affected, removed) =
        Inr (G', next_removal', affected', removed')"
    and "ids_consistent G" and "map_of (graph_ref G) mid = Some node"
  then show "x \<in> set next_removal' \<longleftrightarrow>
         x \<in> set next_removal \<or> (x \<in> fst ` set (upstreams node) \<and> unreferenced G' x)"
    using RemoveNodes_body_next(3) by blast
next
  assume r: "RemoveNodes ids True G = Inr (Gr, aff_r, rem_r)"
    and c: "ids_consistent G" and d: "d \<in> set rem_r"
    and dn: "map_of (graph_ref G) d = Some dn"
    and e: "u \<in> fst ` set (upstreams dn) \<or>
        (edge_reciprocity G \<and> (\<exists>un. map_of (graph_ref G) u = Some un \<and> d \<in> set (downstreams un)))"
  have u: "u \<in> fst ` set (upstreams dn)"
  proof (cases "u \<in> fst ` set (upstreams dn)")
    case True
    then show ?thesis .
  next
    case False
    with e obtain un where rc: "edge_reciprocity G" and un: "map_of (graph_ref G) u = Some un"
      and m: "d \<in> set (downstreams un)" by auto
    from rc dn un m show ?thesis unfolding edge_reciprocity_iff by simp
  qed
  from RemoveNodes_cascade_inv[OF c r] have "cascade_pending (graph_ref G) Gr {} rem_r"
    unfolding cascade_inv_def by simp
  from cascade_pendingD[OF this _ d dn u] show "\<not> unreferenced Gr u" by auto
qed

theorem cascading_removal_queue_witness:
  "RemoveNodes_body True ex_E (ex_G, [], [], []) =
     Inr (ex_G_without_E, [ex_A, ex_B], [], [ex_E]) \<and>
   ids_consistent ex_G \<and> map_of (graph_ref ex_G) ex_E = Some ex_node_E \<and>
   ex_A \<in> set [ex_A, ex_B] \<and> ex_A \<in> fst ` set (upstreams ex_node_E) \<and>
   unreferenced ex_G_without_E ex_A \<and>
   RemoveNodes [ex_E] True ex_G = Inr (ex_G_emptied, [], [ex_B, ex_A, ex_E]) \<and>
   ex_E \<in> set [ex_B, ex_A, ex_E] \<and> \<not> unreferenced ex_G_emptied ex_A"
proof -
  have a: "RemoveNodes_body True ex_E (ex_G, [], [], []) =
     Inr (ex_G_without_E, [ex_A, ex_B], [], [ex_E])"
    by (simp add: ex_defs eval_defs)
  have b: "ids_consistent ex_G" by (simp add: ids_consistent_def ex_defs)
  have c: "map_of (graph_ref ex_G) ex_E = Some ex_node_E" by (simp add: ex_defs)
  have d: "RemoveNodes [ex_E] True ex_G = Inr (ex_G_emptied, [], [ex_B, ex_A, ex_E])"
    by (simp add: ex_defs eval_defs)
  have e: "ex_A \<in> fst ` set (upstreams ex_node_E)" by (simp add: ex_defs)
  have f: "ex_E \<in> set [ex_B, ex_A, ex_E]" by simp
  note T = cascading_removal_queue[where mid = ex_E and G = ex_G and next_removal = "[]"
      and affected = "[]" and removed = "[]" and G' = ex_G_without_E
      and next_removal' = "[ex_A, ex_B]" and affected' = "[]" and removed' = "[ex_E]"
      and node = ex_node_E and ids = "[ex_E]" and Gr = ex_G_emptied and aff_r = "[]"
      and rem_r = "[ex_B, ex_A, ex_E]" and d = ex_E and dn = ex_node_E and u = ex_A]
  from T a b c have "\<forall>u. u \<in> set [ex_A, ex_B] \<longleftrightarrow>
      u \<in> set [] \<or> (u \<in> fst ` set (upstreams ex_node_E) \<and> unreferenced ex_G_without_E u)"
    by simp
  then have "ex_A \<in> set [ex_A, ex_B] \<longleftrightarrow>
      ex_A \<in> set [] \<or> (ex_A \<in> fst ` set (upstreams ex_node_E) \<and> unreferenced ex_G_without_E ex_A)"
    by (rule spec)
  then have g: "unreferenced ex_G_without_E ex_A" by simp
  from T d b f c e have h: "\<not> unreferenced ex_G_emptied ex_A" by simp
  from a b c d e f g h show ?thesis by simp
qed

end
